theory Spec2Isabelle
  imports Complex_Main "HOL-Library.Word" "HOL-Library.Log_Nat"
begin

section \<open>C strings and the libc routines used by the index cache\<close>

text \<open>
  The benchmark \<^verbatim>\<open>huge_memory_bench.cpp\<close> keeps its random access positions in
  the text file \<^verbatim>\<open>/tmp/mem_bench_indices\<close>, one decimal number per line. The file
  is written with \<^verbatim>\<open>fprintf(fd, "%lu\n", idx)\<close> and read back with
  \<^verbatim>\<open>fgets(buf, 128, fd)\<close> and \<^verbatim>\<open>strtol(buf, &endPtr, 10)\<close>. These three
  library routines are modelled here from their C standard behaviour (in the "C"
  locale, which the program never changes); a file is the list of its bytes.
  Read and write errors on an open stream are not modelled.
\<close>

type_synonym ulong = "64 word"

definition newline :: char where
  "newline = CHR 0x0A"

definition NUL :: char where
  "NUL = CHR 0x00"

text \<open>The bytes of a buffer up to its terminating NUL: what \<^verbatim>\<open>%s\<close> and
  \<^verbatim>\<open>strtol\<close> see of it.\<close>

definition c_str :: "string \<Rightarrow> string" where
  "c_str buf = takeWhile (\<lambda>c. c \<noteq> NUL) buf"

text \<open>The character a \<^verbatim>\<open>char *\<close> into a C string points at: the head of the
  rest of the string, or the terminating NUL at its end.\<close>

definition deref :: "string \<Rightarrow> char" where
  "deref s = (case s of [] \<Rightarrow> NUL | c # _ \<Rightarrow> c)"

text \<open>\<^verbatim>\<open>fgets(buf, n, fd)\<close> stores at most \<open>n - 1\<close> bytes and stops after a
  newline. \<open>fgets_take k s\<close> splits the unread bytes \<open>s\<close> of the stream into the
  bytes stored (at most \<open>k\<close>) and the bytes left unread.\<close>

fun fgets_take :: "nat \<Rightarrow> string \<Rightarrow> string \<times> string" where
  "fgets_take 0 s = ([], s)"
| "fgets_take (Suc k) [] = ([], [])"
| "fgets_take (Suc k) (c # cs) =
     (if c = newline then ([c], cs)
      else (c # fst (fgets_take k cs), snd (fgets_take k cs)))"

text \<open>At end of file with nothing read \<^verbatim>\<open>fgets\<close> returns a null pointer.\<close>

definition fgets :: "nat \<Rightarrow> string \<Rightarrow> (string \<times> string) option" where
  "fgets n s = (if s = [] then None else Some (fgets_take (n - 1) s))"

definition isspace :: "char \<Rightarrow> bool" where
  "isspace c \<longleftrightarrow> c \<in> set [CHR 0x20, CHR 0x09, CHR 0x0A, CHR 0x0B, CHR 0x0C, CHR 0x0D]"

definition isdigit :: "char \<Rightarrow> bool" where
  "isdigit c \<longleftrightarrow> c \<in> set ''0123456789''"

definition digit_val :: "char \<Rightarrow> nat" where
  "digit_val c = of_char c - 48"

definition digit_char :: "nat \<Rightarrow> char" where
  "digit_char d = ''0123456789'' ! d"

definition LONG_MAX :: int where
  "LONG_MAX = 2 ^ 63 - 1"

definition LONG_MIN :: int where
  "LONG_MIN = - (2 ^ 63)"

definition parse_digits :: "string \<Rightarrow> nat" where
  "parse_digits ds = foldl (\<lambda>acc c. acc * 10 + digit_val c) 0 ds"

text \<open>\<^verbatim>\<open>strtol(buf, &endPtr, 10)\<close>: skip white space, take an optional sign and
  the longest run of decimal digits, and clamp the value to the range of
  \<^verbatim>\<open>long\<close>. Without any digit the value is 0 and \<^verbatim>\<open>endPtr\<close> is \<^verbatim>\<open>buf\<close> itself.
  The result is the value and the character \<^verbatim>\<open>*endPtr\<close>, which is all the
  caller looks at.\<close>

definition strtol :: "string \<Rightarrow> int \<times> char" where
  "strtol buf =
     (let s = c_str buf;
          s1 = dropWhile isspace s;
          neg = (s1 \<noteq> [] \<and> hd s1 = CHR ''-'');
          s2 = (if s1 \<noteq> [] \<and> (hd s1 = CHR ''-'' \<or> hd s1 = CHR ''+'') then tl s1 else s1);
          ds = takeWhile isdigit s2;
          v = int (parse_digits ds)
      in if ds = [] then (0, deref s)
         else (max LONG_MIN (min LONG_MAX (if neg then - v else v)),
               deref (dropWhile isdigit s2)))"

text \<open>\<^verbatim>\<open>%lu\<close>: the decimal digits of an unsigned number, no leading zero.\<close>

fun dec :: "nat \<Rightarrow> string" where
  "dec n = (if n < 10 then [digit_char n] else dec (n div 10) @ [digit_char (n mod 10)])"

declare dec.simps [simp del]

definition fprintf_lu :: "ulong \<Rightarrow> string" where
  "fprintf_lu idx = dec (unat idx) @ [newline]"

section \<open>Double precision arithmetic\<close>

text \<open>
  The program multiplies and adds \<^verbatim>\<open>double\<close>s and converts between
  \<^verbatim>\<open>double\<close> and \<^verbatim>\<open>unsigned long\<close>. A finite double is modelled by the
  rational number it denotes; every operation computes the exact result and
  rounds it to the nearest number with a 53 bit significand, ties to even (IEEE
  754 binary64 in the default rounding mode, as on x86-64). Numbers below
  \<open>2 ^ -1022\<close> are rounded on the subnormal grid of spacing \<open>2 ^ -1074\<close>.
  Infinities and NaN are not modelled: every value the program computes is a
  sum or product of non-negative numbers far below \<open>2 ^ 1024\<close>.
\<close>

type_synonym double = rat

definition pow2 :: "int \<Rightarrow> rat" where
  "pow2 e = (if 0 \<le> e then 2 ^ nat e else 1 / 2 ^ nat (- e))"

text \<open>Rounding to the nearest integer, a tie going to the even neighbour.\<close>

definition round_even :: "rat \<Rightarrow> int" where
  "round_even x =
     (let f = \<lfloor>x\<rfloor>; r = x - of_int f
      in if r < 1 / 2 then f else if 1 / 2 < r then f + 1 else if even f then f else f + 1)"

text \<open>For \<open>q > 0\<close>, the exponent \<open>k\<close> with \<open>2 ^ k \<le> q < 2 ^ (k + 1)\<close>, found from the bit
  lengths of numerator and denominator.\<close>

definition ilog2 :: "rat \<Rightarrow> int" where
  "ilog2 q = (let (n, d) = quotient_of q; k = bitlen n - bitlen d
              in if pow2 k \<le> q then k else k - 1)"

definition b64_round :: "rat \<Rightarrow> double" where
  "b64_round q =
     (if q = 0 then 0
      else (let e = max (ilog2 \<bar>q\<bar> - 52) (- 1074)
            in sgn q * of_int (round_even (\<bar>q\<bar> / pow2 e)) * pow2 e))"

definition fmul :: "double \<Rightarrow> double \<Rightarrow> double" where
  "fmul a b = b64_round (a * b)"

definition fadd :: "double \<Rightarrow> double \<Rightarrow> double" where
  "fadd a b = b64_round (a + b)"

text \<open>\<^verbatim>\<open>double(i)\<close> for an \<^verbatim>\<open>unsigned long\<close>, and the conversion back, which
  truncates.\<close>

definition double_of_ulong :: "ulong \<Rightarrow> double" where
  "double_of_ulong x = b64_round (of_int (uint x))"

definition ulong_of_double :: "double \<Rightarrow> ulong" where
  "ulong_of_double d = word_of_int \<lfloor>d\<rfloor>"

text \<open>The literals \<^verbatim>\<open>1e-9\<close> and \<^verbatim>\<open>0.03\<close>: the doubles nearest to the decimal
  fractions.\<close>

definition c_1e_9 :: double where
  "c_1e_9 = b64_round (1 / 10 ^ 9)"

definition c_0_03 :: double where
  "c_0_03 = b64_round (3 / 100)"

section \<open>The world the program runs in\<close>

text \<open>
  What the program prints and the system calls it makes are recorded, in
  order, in a trace. Elapsed times are not modelled: the two timing lines are
  events without a value. \<open>Mmap size hugetlb\<close> is the call of \<^verbatim>\<open>mmap\<close> with the
  length and whether \<^verbatim>\<open>MAP_HUGETLB | MAP_HUGE_2MB\<close> is among the flags.
\<close>

datatype event =
    Print string
  | Perror string
  | Mmap ulong bool
  | Madvise
  | Munmap
  | PrintInitTime
  | PrintAddTime
  | PrintResult double

text \<open>  \<open>cached_file\<close> is the content of \<^verbatim>\<open>CACHED_INDICES_FILE\<close>, \<open>None\<close> when it
  cannot be opened for reading; \<open>writable\<close> says whether it can be opened for
  writing (a file written and closed can be read back afterwards);
  \<open>thp_file\<close> is the content of
  \<^verbatim>\<open>/sys/kernel/mm/transparent_hugepage/enabled\<close>, \<open>None\<close> when it cannot be
  opened; \<open>mmap_ok\<close> and \<open>madvise_ok\<close> are the outcomes of the two system calls.\<close>

record world =
  cached_file :: "string option"
  writable :: bool
  thp_file :: "string option"
  mmap_ok :: bool
  madvise_ok :: bool
  trace :: "event list"

definition emit :: "event \<Rightarrow> world \<Rightarrow> world" where
  "emit e w = w\<lparr>trace := trace w @ [e]\<rparr>"

definition CACHED_INDICES_FILE :: string where
  "CACHED_INDICES_FILE = ''/tmp/mem_bench_indices''"

section \<open>The index cache\<close>

text \<open>
  \<^verbatim>\<open>uniform_int_distribution<...> dist(0, endIdx - 1)\<close> on a generator seeded from
  \<^verbatim>\<open>random_device\<close> is a parameter \<open>draw\<close>: \<open>draw a b i\<close> is the value of the \<open>i\<close>-th
  call \<^verbatim>\<open>dist(rng)\<close> of a distribution constructed with bounds \<open>a\<close> and \<open>b\<close>.
  The library promises \<open>a \<le> draw a b i \<le> b\<close>; \<open>dist_in_range\<close> is that promise
  for the calls \<^verbatim>\<open>generateIndices\<close> makes.
\<close>

type_synonym uniform_dist = "ulong \<Rightarrow> ulong \<Rightarrow> nat \<Rightarrow> ulong"

definition dist_in_range :: "uniform_dist \<Rightarrow> ulong \<Rightarrow> nat \<Rightarrow> bool" where
  "dist_in_range draw endIdx n \<longleftrightarrow> (\<forall>i < n. draw 0 (endIdx - 1) i \<le> endIdx - 1)"

text \<open>The loop of \<^verbatim>\<open>generateIndices\<close>: iteration \<open>i\<close> draws an index, prints it to
  the file and appends it to the vector.\<close>

function gen_loop :: "uniform_dist \<Rightarrow> ulong \<Rightarrow> nat \<Rightarrow> nat \<Rightarrow> string \<times> ulong list
    \<Rightarrow> string \<times> ulong list" where
  "gen_loop draw endIdx numIndices i (file, indices) =
     (if i < numIndices then
        (let idx = draw 0 (endIdx - 1) i
         in gen_loop draw endIdx numIndices (Suc i) (file @ fprintf_lu idx, indices @ [idx]))
      else (file, indices))"
  by pat_completeness auto
termination
  by (relation "measure (\<lambda>(draw, endIdx, numIndices, i, st). numIndices - i)") auto

declare gen_loop.simps [simp del]

text \<open>\<^verbatim>\<open>generateIndices\<close> returns the new world, its \<^verbatim>\<open>bool\<close> result and the
  vector. Opening the file for writing truncates it.\<close>

definition generateIndices :: "world \<Rightarrow> uniform_dist \<Rightarrow> ulong list \<Rightarrow> ulong \<Rightarrow> ulong
    \<Rightarrow> world \<times> bool \<times> ulong list" where
  "generateIndices w draw indices endIdx numIndices =
     (if \<not> writable w then
        (emit (Print (''Can't open '' @ CACHED_INDICES_FILE @ '' for writing'')) w,
         False, indices)
      else
        (let (file, indices') = gen_loop draw endIdx (unat numIndices) 0 ([], indices)
         in (emit (Print (''Generated '' @ CACHED_INDICES_FILE @
                     ''. Remember to remove it when done running benchmarks''))
               (w\<lparr>cached_file := Some file\<rparr>),
             True, indices')))"

text \<open>The test \<^verbatim>\<open>readIndices\<close> applies to each line read.\<close>

definition invalid_line :: "ulong \<Rightarrow> string \<Rightarrow> bool" where
  "invalid_line endIdx buf =
     (let (idx, endc) = strtol buf
      in (endc \<noteq> newline \<and> endc \<noteq> NUL) \<or> idx < 0 \<or> (word_of_int idx :: ulong) \<ge> endIdx)"

text \<open>\<^verbatim>\<open>fgets\<close> consumes at least one byte, so the loop below terminates.\<close>

lemma fgets_take_shorter:
  "s \<noteq> [] \<Longrightarrow> length (snd (fgets_take (Suc k) s)) < length s"
proof (induction k arbitrary: s)
  case 0
  then show ?case by (cases s) auto
next
  case (Suc k)
  then show ?case
  proof (cases s)
    case Nil
    with Suc.prems show ?thesis by simp
  next
    case (Cons c cs)
    show ?thesis
    proof (cases cs)
      case Nil
      with Cons show ?thesis by simp
    next
      case (Cons d ds)
      with Suc.IH [of cs] \<open>s = c # cs\<close> show ?thesis by simp
    qed
  qed
qed

text \<open>The loop of \<^verbatim>\<open>readIndices\<close>. Its state is the unread rest of the file,
  the vector, \<^verbatim>\<open>maxIdx\<close> and the trace. It ends at end of file, at the
  first invalid line, or once the vector holds more than \<^verbatim>\<open>numIndices\<close> entries.\<close>

function read_loop :: "ulong \<Rightarrow> ulong \<Rightarrow> string \<Rightarrow> ulong list \<times> ulong \<times> event list
    \<Rightarrow> ulong list \<times> ulong \<times> event list" where
  "read_loop endIdx numIndices stream (indices, maxIdx, out) =
     (case fgets 128 stream of
        None \<Rightarrow> (indices, maxIdx, out)
      | Some (buf, stream') \<Rightarrow>
          if invalid_line endIdx buf then
            (indices, maxIdx, out @ [Print (''invalid line: '' @ c_str buf)])
          else
            (let idx = (word_of_int (fst (strtol buf)) :: ulong);
                 indices' = indices @ [idx];
                 maxIdx' = max maxIdx idx
             in if length indices' > unat numIndices then (indices', maxIdx', out)
                else read_loop endIdx numIndices stream' (indices', maxIdx', out)))"
  by pat_completeness auto
termination
proof (relation "measure (\<lambda>(endIdx, numIndices, stream, st). length stream)")
  show "wf (measure (\<lambda>(endIdx, numIndices, stream, st). length stream))" by simp
next
  fix endIdx numIndices :: ulong and stream :: string and indices :: "ulong list"
    and maxIdx :: ulong and out :: "event list" and x2 :: "string \<times> string"
    and buf stream' :: string and idx :: ulong and indices' :: "ulong list" and maxIdx' :: ulong
  assume "fgets 128 stream = Some x2" and "(buf, stream') = x2"
  then have "stream \<noteq> []" and "stream' = snd (fgets_take 127 stream)"
    by (auto simp: fgets_def split: if_splits)
  then have "length stream' < length stream"
    using fgets_take_shorter [of stream 126] by simp
  then show "((endIdx, numIndices, stream', indices', maxIdx', out),
              (endIdx, numIndices, stream, indices, maxIdx, out))
             \<in> measure (\<lambda>(endIdx, numIndices, stream, st). length stream)"
    by simp
qed

declare read_loop.simps [simp del]

definition readIndices :: "world \<Rightarrow> uniform_dist \<Rightarrow> ulong list \<Rightarrow> ulong \<Rightarrow> ulong
    \<Rightarrow> world \<times> bool \<times> ulong list" where
  "readIndices w draw indices endIdx numIndices =
     (case cached_file w of
        None \<Rightarrow> generateIndices w draw indices endIdx numIndices
      | Some content \<Rightarrow>
          (let (indices', maxIdx, out) = read_loop endIdx numIndices content (indices, 0, trace w);
               w' = w\<lparr>trace := out\<rparr>
           in if endIdx - maxIdx > 10000000 \<or> length indices' \<noteq> unat numIndices then
                generateIndices (emit (Print ''Invalid file, regenerating'') w') draw []
                  endIdx numIndices
              else (w', True, indices')))"

section \<open>The benchmark\<close>

text \<open>
  The local variables of \<^verbatim>\<open>main\<close> that the option loop sets.
\<close>

record locals =
  st_arraySize :: ulong
  st_endIdx :: ulong
  st_hugetlb :: bool
  st_thp :: bool

text \<open>What \<^verbatim>\<open>getopt(argc, argv, "hmts:")\<close> returns, call by call: one of the four
  options or anything else. For \<^verbatim>\<open>-s\<close> the option carries what
  \<^verbatim>\<open>strtoul(optarg, &endPtr, 0)\<close> made of its argument: the number and the
  character \<^verbatim>\<open>*endPtr\<close>.\<close>

datatype opt = OptH | OptT | OptM | OptS ulong char | OptOther

text \<open>How the process ends: \<^verbatim>\<open>return\<close> from \<^verbatim>\<open>main\<close> or \<^verbatim>\<open>exit\<close> with a
  status, or a read outside the array.\<close>

datatype outcome = Exit nat | Fault

definition usage :: "string \<Rightarrow> world \<Rightarrow> world \<times> outcome" where
  "usage name w =
     (emit (Print '' -t: allocate the array with MAP_HUGETLB (hugetlbfs), conflicts with -m'')
       (emit (Print '' -s sizeInGib: array size, default is 32Gib, max 128Gib'')
         (emit (Print '' -m: madvise the memory with MADV_HUGEPAGE (THP), conflicts with -t'')
           (emit (Print '' -h: display usage'')
             (emit (Print ''Options'')
               (emit (Print (''Usage: '' @ name @ '' [-h] [-s sizeInGib] [-m] [-t]'')) w))))),
      Exit 1)"

text \<open>\<^verbatim>\<open>getline(ifs, str)\<close> on a freshly opened stream fails only when there is
  nothing to extract; \<^verbatim>\<open>str.find(p) != npos\<close> says whether \<open>p\<close> occurs in \<open>str\<close>.\<close>

definition getline :: "string \<Rightarrow> string option" where
  "getline content =
     (if content = [] then None else Some (takeWhile (\<lambda>c. c \<noteq> newline) content))"

fun str_find :: "string \<Rightarrow> string \<Rightarrow> bool" where
  "str_find p [] = (p = [])"
| "str_find p (c # cs) = (take (length p) (c # cs) = p \<or> str_find p cs)"

definition thp_enabled :: "world \<Rightarrow> bool" where
  "thp_enabled w =
     (case thp_file w of
        None \<Rightarrow> False
      | Some content \<Rightarrow>
          (case getline content of
             None \<Rightarrow> False
           | Some str \<Rightarrow> \<not> str_find ''[never]'' str))"

definition thp_disabled_msg :: event where
  "thp_disabled_msg = Print (''Tranparent Huge Pages are not enabled. Switch '' @
     ''/sys/kernel/mm/transparent_hugepage to either '' @
     ''madvise or always (madvise recommended for this test)'')"

text \<open>The option loop. It ends the program (\<open>Inl\<close>) or leaves the locals (\<open>Inr\<close>).\<close>

fun getopt_loop :: "string \<Rightarrow> opt list \<Rightarrow> locals \<Rightarrow> world \<Rightarrow> (world \<times> outcome) + (locals \<times> world)" where
  "getopt_loop name [] st w = Inr (st, w)"
| "getopt_loop name (OptH # os) st w = Inl (usage name w)"
| "getopt_loop name (OptT # os) st w = getopt_loop name os (st\<lparr>st_hugetlb := True\<rparr>) w"
| "getopt_loop name (OptM # os) st w =
     (if \<not> thp_enabled w then Inl (emit thp_disabled_msg w, Exit 1)
      else getopt_loop name os (st\<lparr>st_thp := True\<rparr>) w)"
| "getopt_loop name (OptS num endc # os) st w =
     (if endc \<noteq> NUL \<or> num > 128 then Inl (usage name w)
      else (let arraySize = num * 1024 * 1024 * 1024
            in getopt_loop name os (st\<lparr>st_arraySize := arraySize, st_endIdx := arraySize div 8\<rparr>) w))"
| "getopt_loop name (OptOther # os) st w = Inl (usage name w)"

text \<open>\<^verbatim>\<open>unsigned long numIndices = endIdx * 0.03;\<close>\<close>

definition numIndices_of :: "ulong \<Rightarrow> ulong" where
  "numIndices_of endIdx = ulong_of_double (fmul (double_of_ulong endIdx) c_0_03)"

lemma unat_inc:
  assumes "i < (endIdx :: ulong)"
  shows "unat (i + 1) = Suc (unat i)"
proof -
  have "unat i < unat endIdx" using assms by (simp add: word_less_nat_alt)
  moreover have "unat endIdx < 2 ^ 64" using unsigned_less [of endIdx, where ?'a = nat] by simp
  ultimately have "unat i + unat (1 :: ulong) < 2 ^ LENGTH(64)" by simp
  then have "unat (i + 1) = unat i + unat (1 :: ulong)" by (rule unat_add_lem [THEN iffD1])
  then show ?thesis by simp
qed

text \<open>The initialization loop. The array is a function from indices to doubles;
  next to it the loop keeps the list of the indices written so far, in the order
  of the writes.\<close>

function init_loop :: "ulong \<Rightarrow> ulong \<Rightarrow> (ulong \<Rightarrow> double) \<times> ulong list
    \<Rightarrow> (ulong \<Rightarrow> double) \<times> ulong list" where
  "init_loop endIdx i (array, written) =
     (if i < endIdx then
        init_loop endIdx (i + 1)
          (array(i := fmul c_1e_9 (double_of_ulong (i mod 79))), written @ [i])
      else (array, written))"
  by pat_completeness auto
termination
  by (relation "measure (\<lambda>(endIdx, i, st). unat endIdx - unat i)")
    (auto simp: unat_inc word_less_nat_alt)

declare init_loop.simps [simp del]

text \<open>The access loop. Reading at or beyond \<^verbatim>\<open>endIdx\<close> is outside the mapping:
  \<open>None\<close>.\<close>

fun access_loop :: "(ulong \<Rightarrow> double) \<Rightarrow> ulong \<Rightarrow> ulong list \<Rightarrow> double \<Rightarrow> double option" where
  "access_loop array endIdx [] result = Some result"
| "access_loop array endIdx (u # us) result =
     (if u < endIdx then access_loop array endIdx us (fadd result (array u)) else None)"

text \<open>\<^verbatim>\<open>main\<close> from the call of \<^verbatim>\<open>mmap\<close> on. \<^verbatim>\<open>mmap\<close> fails for length 0
  whatever the system's state.\<close>

definition benchmark :: "locals \<Rightarrow> ulong list \<Rightarrow> world \<Rightarrow> world \<times> outcome" where
  "benchmark st indices w =
     (let w1 = emit (Mmap (st_arraySize st) (st_hugetlb st)) w
      in if \<not> (mmap_ok w1 \<and> st_arraySize st \<noteq> 0) then
           (let w2 = emit (Perror ''Cannot allocate memory!'') w1
            in (if st_hugetlb st then
                  emit (Print (''You must have at least 16Gi free hugetlbfs pages. '' @
                    ''Check /proc/meminfo to see the number of free hugetlbfs'' @
                    ''pages and adjust if necessary with hugeadm'')) w2
                else w2, Exit 1))
         else if st_thp st \<and> \<not> madvise_ok w1 then
           (emit (Print ''madvise MADV_HUGEPAGE failed, enable THP and try again'')
              (emit Madvise w1), Exit 1)
         else
           (let w2 = emit (Print ''Initializing the array'') (if st_thp st then emit Madvise w1 else w1);
                (array, written) = init_loop (st_endIdx st) 0 (\<lambda>i. 0, []);
                w3 = emit PrintInitTime w2
            in case access_loop array (st_endIdx st) indices 0 of
                 None \<Rightarrow> (w3, Fault)
               | Some result \<Rightarrow>
                   (emit Munmap (emit (PrintResult result) (emit PrintAddTime w3)), Exit 0)))"

definition initial_locals :: locals where
  "initial_locals = \<lparr>st_arraySize = 32 * 1024 * 1024 * 1024,
     st_endIdx = 32 * 1024 * 1024 * 1024 div 8, st_hugetlb = False, st_thp = False\<rparr>"

definition main :: "string \<Rightarrow> opt list \<Rightarrow> bool \<Rightarrow> uniform_dist \<Rightarrow> world \<Rightarrow> world \<times> outcome" where
  "main name opts extra draw w =
     (case getopt_loop name opts initial_locals w of
        Inl r \<Rightarrow> r
      | Inr (st, w1) \<Rightarrow>
          if (st_hugetlb st \<and> st_thp st) \<or> extra then usage name w1
          else
            (let numIndices = numIndices_of (st_endIdx st);
                 (w2, ok, indices) =
                   readIndices (emit (Print ''Getting the indices'') w1) draw []
                     (st_endIdx st) numIndices
             in if \<not> ok then (emit (Print ''Can't get indices'') w2, Exit 1)
                else benchmark st indices w2))"

section \<open>Notions used in the statements\<close>

text \<open>
  The file that holds a list of indices, the indices a call of
  \<^verbatim>\<open>generateIndices\<close> draws, and the lines the index cache prints.
\<close>

definition print_indices :: "ulong list \<Rightarrow> string" where
  "print_indices xs = concat (map fprintf_lu xs)"

definition draws :: "uniform_dist \<Rightarrow> ulong \<Rightarrow> ulong \<Rightarrow> ulong list" where
  "draws draw endIdx numIndices = map (draw 0 (endIdx - 1)) [0..<unat numIndices]"

definition generated_msg :: event where
  "generated_msg = Print (''Generated '' @ CACHED_INDICES_FILE @
      ''. Remember to remove it when done running benchmarks'')"

definition regenerating_msg :: event where
  "regenerating_msg = Print ''Invalid file, regenerating''"

definition cant_open_msg :: event where
  "cant_open_msg = Print (''Can't open '' @ CACHED_INDICES_FILE @ '' for writing'')"

text \<open>The buffers that successive calls of \<^verbatim>\<open>fgets(buf, 128, fd)\<close> deliver until
  end of file (the lines of the file, a line of more than 127 bytes in several
  pieces), and the longest run of them from the start that \<^verbatim>\<open>readIndices\<close>
  finds valid.\<close>

function chunks :: "string \<Rightarrow> string list" where
  "chunks stream =
     (case fgets 128 stream of None \<Rightarrow> [] | Some (buf, stream') \<Rightarrow> buf # chunks stream')"
  by pat_completeness auto
termination
proof (relation "measure length")
  show "wf (measure length)" by simp
next
  fix stream :: string and x2 :: "string \<times> string" and buf stream' :: string
  assume "fgets 128 stream = Some x2" and "(buf, stream') = x2"
  then have "stream \<noteq> []" and "stream' = snd (fgets_take 127 stream)"
    by (auto simp: fgets_def split: if_splits)
  then have "length stream' < length stream"
    using fgets_take_shorter [of stream 126] by simp
  then show "(stream', stream) \<in> measure length" by simp
qed

declare chunks.simps [simp del]

definition valid_lines :: "ulong \<Rightarrow> string \<Rightarrow> string list" where
  "valid_lines endIdx content = takeWhile (\<lambda>buf. \<not> invalid_line endIdx buf) (chunks content)"

text \<open>The value of a run of digits and the digits of a number, computed on
  \<open>int\<close>: the same functions as \<open>parse_digits\<close> and \<open>dec\<close>, in a form that evaluates
  on numbers of twenty digits.\<close>

definition parse_digits_int :: "string \<Rightarrow> int" where
  "parse_digits_int ds = foldl (\<lambda>acc c. acc * 10 + int (digit_val c)) 0 ds"

function dec_int :: "int \<Rightarrow> string" where
  "dec_int n = (if n < 10 then [digit_char (nat n)]
                else dec_int (n div 10) @ [digit_char (nat (n mod 10))])"
  by pat_completeness auto
termination
  by (relation "measure nat") auto

declare dec_int.simps [simp del]

text \<open>What a run appended to the trace.\<close>

definition new_events :: "world \<Rightarrow> world \<Rightarrow> event list" where
  "new_events w w' = drop (length (trace w)) (trace w')"

definition line_idx :: "string \<Rightarrow> ulong" where
  "line_idx buf = word_of_int (fst (strtol buf))"

text \<open>Concrete worlds, distributions and files for the examples.\<close>

definition world0 :: world where
  "world0 = \<lparr>cached_file = None, writable = True, thp_file = None, mmap_ok = True,
             madvise_ok = True, trace = []\<rparr>"

definition list_draw :: "ulong list \<Rightarrow> uniform_dist" where
  "list_draw xs a b i = xs ! i"

definition const_draw :: "ulong \<Rightarrow> uniform_dist" where
  "const_draw v a b i = v"

definition lines :: "string list \<Rightarrow> string" where
  "lines ls = concat (map (\<lambda>l. l @ [newline]) ls)"

definition corrupt_tail_world :: world where
  "corrupt_tail_world = world0\<lparr>cached_file := Some (lines [''1'', ''2'', ''xyz''])\<rparr>"

definition good_world :: world where
  "good_world = world0\<lparr>cached_file := Some (lines [''1'', ''2''])\<rparr>"

definition stale_world :: world where
  "stale_world = world0\<lparr>cached_file := Some (print_indices [5])\<rparr>"

definition short_world :: world where
  "short_world = world0\<lparr>cached_file := Some (lines [''1'', ''xyz''])\<rparr>"

definition fresh_world :: world where
  "fresh_world = world0\<lparr>cached_file := Some (lines [''5'', ''999'', ''0'']),
      trace := [generated_msg]\<rparr>"

definition zeros_world :: world where
  "zeros_world = world0\<lparr>cached_file := Some (print_indices (replicate 4026531 0)),
      trace := [generated_msg]\<rparr>"

definition ones_world :: world where
  "ones_world = world0\<lparr>cached_file := Some (print_indices (replicate 4026531 1)),
      trace := [generated_msg, regenerating_msg, generated_msg]\<rparr>"

definition long_world :: world where
  "long_world = world0\<lparr>cached_file := Some (lines [''1'', ''2'', ''3''])\<rparr>"

definition madvise_fails_world :: world where
  "madvise_fails_world = world0\<lparr>thp_file := Some (''always [madvise] never'' @ [newline]),
      madvise_ok := False\<rparr>"

definition leaked_world :: world where
  "leaked_world = madvise_fails_world\<lparr>
      cached_file := Some (print_indices (replicate 4026531 0)),
      trace := [Print ''Getting the indices'', generated_msg, Mmap 1073741824 False, Madvise,
                Print ''madvise MADV_HUGEPAGE failed, enable THP and try again'']\<rparr>"

definition small_run :: locals where
  "small_run = \<lparr>st_arraySize = 8000, st_endIdx = 1000, st_hugetlb = False, st_thp = False\<rparr>"

text \<open>The value the initialization stores at index \<open>i\<close>, the literal \<^verbatim>\<open>5e-9\<close>, and
  the sum the specification asks of the access phase: the values at the indices,
  added from left to right.\<close>

definition slot_value :: "ulong \<Rightarrow> double" where
  "slot_value i = fmul c_1e_9 (double_of_ulong (i mod 79))"

definition c_5e_9 :: double where
  "c_5e_9 = b64_round (5 / 10 ^ 9)"

definition spec_access_sum :: "ulong list \<Rightarrow> double" where
  "spec_access_sum indices = foldl fadd 0 (map slot_value indices)"

fun is_result :: "event \<Rightarrow> bool" where
  "is_result (PrintResult r) = True"
| "is_result ev = False"

text \<open>A run of the benchmark that is not aborted: the mapping succeeds and so does
  the advice, if asked for.\<close>

definition run_ok :: "locals \<Rightarrow> world \<Rightarrow> bool" where
  "run_ok st w \<longleftrightarrow> mmap_ok w \<and> st_arraySize st \<noteq> 0 \<and> (st_thp st \<longrightarrow> madvise_ok w)"

text \<open>The state file as it is when huge pages are disabled, an option that lets
  the option loop go on, and a state file that cannot be opened or has no first
  line.\<close>

definition never_line :: string where
  "never_line = ''always madvise [never]'' @ [newline]"

definition passes :: "opt \<Rightarrow> bool" where
  "passes opt = (case opt of OptT \<Rightarrow> True | OptS num endc \<Rightarrow> endc = NUL \<and> num \<le> 128 | _ \<Rightarrow> False)"

definition thp_unreadable :: "world \<Rightarrow> bool" where
  "thp_unreadable w \<longleftrightarrow>
     (case thp_file w of None \<Rightarrow> True | Some content \<Rightarrow> getline content = None)"

text \<open>For \<open>k\<close> GiB the program computes the exact 3 percent, and the locals the
  option loop can leave.\<close>

definition numIndices_ok :: "int \<Rightarrow> bool" where
  "numIndices_ok k \<longleftrightarrow>
     \<lfloor>fmul (b64_round (of_int (k * 2 ^ 27))) c_0_03\<rfloor> = k * 2 ^ 27 * 3 div 100"

definition sized :: "locals \<Rightarrow> bool" where
  "sized st \<longleftrightarrow> (\<exists>num :: ulong. num \<le> 128 \<and> st_arraySize st = num * 1024 * 1024 * 1024
                    \<and> st_endIdx st = st_arraySize st div 8)"

section \<open>Equations for evaluation\<close>

text \<open>The definitions above, rewritten so that evaluation is linear in the length
  of a line and works on \<open>int\<close> where the numbers are large. Each equation is
  proved from the definition it replaces.\<close>

lemma fgets_take_code [code]:
  "fgets_take 0 s = ([], s)"
  "fgets_take (Suc k) [] = ([], [])"
  "fgets_take (Suc k) (c # cs) =
     (if c = newline then ([c], cs)
      else (case fgets_take k cs of (buf, rest) \<Rightarrow> (c # buf, rest)))"
  by (simp_all split: prod.splits)

lemma int_parse_digits: "int (parse_digits ds) = parse_digits_int ds"
proof -
  have "int (foldl (\<lambda>acc c. acc * 10 + digit_val c) a ds)
          = foldl (\<lambda>acc c. acc * 10 + int (digit_val c)) (int a) ds" for a
    by (induction ds arbitrary: a) simp_all
  from this [of 0] show ?thesis by (simp add: parse_digits_def parse_digits_int_def)
qed

lemma strtol_code [code]:
  "strtol buf =
     (let s = c_str buf;
          s1 = dropWhile isspace s;
          neg = (s1 \<noteq> [] \<and> hd s1 = CHR ''-'');
          s2 = (if s1 \<noteq> [] \<and> (hd s1 = CHR ''-'' \<or> hd s1 = CHR ''+'') then tl s1 else s1);
          ds = takeWhile isdigit s2;
          v = parse_digits_int ds
      in if ds = [] then (0, deref s)
         else (max LONG_MIN (min LONG_MAX (if neg then - v else v)),
               deref (dropWhile isdigit s2)))"
  by (simp add: strtol_def int_parse_digits)

lemma dec_int: "dec n = dec_int (int n)"
proof (induction n rule: dec.induct)
  case (1 n)
  show ?case
  proof (cases "n < 10")
    case True
    then show ?thesis by (subst dec.simps, subst dec_int.simps) simp
  next
    case False
    with 1 have "dec (n div 10) = dec_int (int (n div 10))" by simp
    with False show ?thesis
      by (subst dec.simps, subst dec_int.simps) (simp add: zdiv_int zmod_int nat_mod_distrib)
  qed
qed

lemma fprintf_lu_code [code]: "fprintf_lu idx = dec_int (uint idx) @ [newline]"
  by (simp add: fprintf_lu_def dec_int)

lemma unat_less_length: "unat (n :: ulong) < k \<longleftrightarrow> uint n < int k"
  by (metis of_nat_less_iff uint_nat)

lemma length_eq_unat: "k = unat (n :: ulong) \<longleftrightarrow> int k = uint n"
  by (metis of_nat_eq_iff uint_nat)

lemma read_loop_code [code]:
  "read_loop endIdx numIndices stream (indices, maxIdx, out) =
     (case fgets 128 stream of
        None \<Rightarrow> (indices, maxIdx, out)
      | Some (buf, stream') \<Rightarrow>
          if invalid_line endIdx buf then
            (indices, maxIdx, out @ [Print (''invalid line: '' @ c_str buf)])
          else
            (let idx = (word_of_int (fst (strtol buf)) :: ulong);
                 indices' = indices @ [idx];
                 maxIdx' = max maxIdx idx
             in if int (length indices') > uint numIndices then (indices', maxIdx', out)
                else read_loop endIdx numIndices stream' (indices', maxIdx', out)))"
  by (subst read_loop.simps) (simp add: unat_less_length Let_def split: option.splits)

lemma readIndices_code [code]:
  "readIndices w draw indices endIdx numIndices =
     (case cached_file w of
        None \<Rightarrow> generateIndices w draw indices endIdx numIndices
      | Some content \<Rightarrow>
          (let (indices', maxIdx, out) = read_loop endIdx numIndices content (indices, 0, trace w);
               w' = w\<lparr>trace := out\<rparr>
           in if endIdx - maxIdx > 10000000 \<or> int (length indices') \<noteq> uint numIndices then
                generateIndices (emit (Print ''Invalid file, regenerating'') w') draw []
                  endIdx numIndices
              else (w', True, indices')))"
  by (auto simp: readIndices_def Let_def length_eq_unat [symmetric] split: option.splits prod.splits)

section \<open>Printing and parsing decimal numbers\<close>

lemma digit_cases: "d < 10 \<Longrightarrow> d \<in> {0, 1, 2, 3, 4, 5, 6, 7, 8, 9::nat}"
  by auto

lemma isdigit_digit_char: "d < 10 \<Longrightarrow> isdigit (digit_char d)"
  by (drule digit_cases) (auto simp: isdigit_def digit_char_def)

lemma digit_val_digit_char: "d < 10 \<Longrightarrow> digit_val (digit_char d) = d"
  by (drule digit_cases) (auto simp: digit_val_def digit_char_def)

lemma isdigit_not_special:
  "isdigit c \<Longrightarrow> c \<noteq> newline \<and> c \<noteq> NUL \<and> \<not> isspace c \<and> c \<noteq> CHR ''-'' \<and> c \<noteq> CHR ''+''"
  by (auto simp: isdigit_def newline_def NUL_def isspace_def)

lemma dec_digits: "c \<in> set (dec n) \<Longrightarrow> isdigit c"
proof (induction n arbitrary: c rule: dec.induct)
  case (1 n)
  then show ?case
    by (subst (asm) (2) dec.simps) (auto simp: isdigit_digit_char split: if_splits)
qed

lemma dec_nonempty: "dec n \<noteq> []"
  by (subst dec.simps) simp

lemma parse_digits_snoc: "parse_digits (ds @ [c]) = parse_digits ds * 10 + digit_val c"
  by (simp add: parse_digits_def)

lemma parse_digits_dec: "parse_digits (dec n) = n"
proof (induction n rule: dec.induct)
  case (1 n)
  show ?case
  proof (cases "n < 10")
    case True
    then show ?thesis
      by (subst dec.simps) (simp add: parse_digits_def digit_val_digit_char)
  next
    case False
    with 1 have "parse_digits (dec (n div 10)) = n div 10" by simp
    with False show ?thesis
      by (subst dec.simps) (simp add: parse_digits_snoc digit_val_digit_char)
  qed
qed

lemma length_dec: "n < 10 ^ k \<Longrightarrow> 0 < k \<Longrightarrow> length (dec n) \<le> k"
proof (induction n arbitrary: k rule: dec.induct)
  case (1 n)
  show ?case
  proof (cases "n < 10")
    case True
    with 1(3) show ?thesis by (subst dec.simps) simp
  next
    case False
    obtain j where k: "k = Suc j" using 1(3) by (cases k) auto
    from False 1(2) k have "0 < j" by (cases j) auto
    moreover from 1(2) k have "n div 10 < 10 ^ j" by (simp add: less_mult_imp_div_less mult.commute)
    ultimately have "length (dec (n div 10)) \<le> j" using 1(1) False by simp
    with False k show ?thesis by (subst dec.simps) simp
  qed
qed

lemma length_dec_ulong: "length (dec (unat (x :: ulong))) \<le> 20"
proof -
  have "unat x < 2 ^ 64" using unsigned_less [of x, where ?'a = nat] by simp
  also have "(2::nat) ^ 64 < 10 ^ 20" by simp
  finally show ?thesis by (rule length_dec) simp
qed

lemma fgets_take_line:
  "length ds < k \<Longrightarrow> newline \<notin> set ds \<Longrightarrow>
   fgets_take k (ds @ newline # rest) = (ds @ [newline], rest)"
proof (induction ds arbitrary: k)
  case Nil
  then show ?case by (cases k) auto
next
  case (Cons d ds)
  then show ?case by (cases k) auto
qed

lemma fgets_line:
  "length ds < 127 \<Longrightarrow> newline \<notin> set ds \<Longrightarrow>
   fgets 128 (ds @ newline # rest) = Some (ds @ [newline], rest)"
  by (simp add: fgets_def fgets_take_line)

lemma strtol_digits_line:
  assumes "ds \<noteq> []" and "\<forall>c \<in> set ds. isdigit c" and "int (parse_digits ds) \<le> LONG_MAX"
  shows "strtol (ds @ [newline]) = (int (parse_digits ds), newline)"
proof -
  from assms(2) have nonul: "\<forall>c \<in> set (ds @ [newline]). c \<noteq> NUL"
    using isdigit_not_special by (auto simp: newline_def NUL_def)
  then have cs: "c_str (ds @ [newline]) = ds @ [newline]"
    unfolding c_str_def by (metis (mono_tags, lifting) takeWhile_eq_all_conv)
  obtain d ds' where ds: "ds = d # ds'" using assms(1) by (cases ds) auto
  with assms(2) have d: "isdigit d" by simp
  have tw: "takeWhile isdigit (ds @ [newline]) = ds"
    using assms(2) by (simp add: takeWhile_append2 isdigit_def newline_def)
  have dw: "dropWhile isdigit (ds @ [newline]) = [newline]"
    using assms(2) by (simp add: dropWhile_append2 isdigit_def newline_def)
  have sp: "dropWhile isspace (ds @ [newline]) = ds @ [newline]"
    using d isdigit_not_special [OF d] by (simp add: ds)
  have hd: "hd (ds @ [newline]) = d" by (simp add: ds)
  have range: "max LONG_MIN (min LONG_MAX (int (parse_digits ds))) = int (parse_digits ds)"
    using assms(3) by (simp add: LONG_MIN_def)
  show ?thesis
    unfolding strtol_def cs sp Let_def hd
    using isdigit_not_special [OF d] assms(1) range
    by (simp add: tw dw deref_def)
qed

lemma unat_lt_2p63_LONG_MAX:
  assumes "x < (2 ^ 63 :: ulong)"
  shows "int (unat x) \<le> LONG_MAX"
proof -
  from assms have "unat x < 2 ^ 63" by (simp add: word_less_nat_alt)
  then have "int (unat x) < int (2 ^ 63)" by (simp only: of_nat_less_iff)
  then show ?thesis by (simp add: LONG_MAX_def)
qed

lemma fgets_fprintf_lu:
  "fgets 128 (fprintf_lu x @ rest) = Some (fprintf_lu x, rest)"
proof -
  have "length (dec (unat x)) < 127" using length_dec_ulong [of x] by simp
  moreover have "newline \<notin> set (dec (unat x))"
    using dec_digits isdigit_not_special by blast
  ultimately show ?thesis
    using fgets_line [of "dec (unat x)" rest] by (simp add: fprintf_lu_def)
qed

lemma strtol_fprintf_lu:
  assumes "x < (2 ^ 63 :: ulong)"
  shows "strtol (fprintf_lu x) = (int (unat x), newline)"
  using strtol_digits_line [of "dec (unat x)"] dec_nonempty dec_digits
    unat_lt_2p63_LONG_MAX [OF assms]
  by (simp add: fprintf_lu_def parse_digits_dec)

lemma line_idx_fprintf_lu: "x < (2 ^ 63 :: ulong) \<Longrightarrow> line_idx (fprintf_lu x) = x"
  by (simp add: line_idx_def strtol_fprintf_lu)

lemma valid_fprintf_lu:
  "x < (2 ^ 63 :: ulong) \<Longrightarrow> x < e \<Longrightarrow> \<not> invalid_line e (fprintf_lu x)"
  by (simp add: invalid_line_def strtol_fprintf_lu)

section \<open>The two loops of the index cache\<close>

lemma gen_loop_eq:
  "gen_loop draw e n i (fl, ix) =
     (fl @ concat (map (\<lambda>j. fprintf_lu (draw 0 (e - 1) j)) [i..<n]),
      ix @ map (draw 0 (e - 1)) [i..<n])"
proof (induction "n - i" arbitrary: i fl ix)
  case 0
  then show ?case by (subst gen_loop.simps) simp
next
  case (Suc k)
  then have lt: "i < n" and k: "k = n - Suc i" by auto
  from lt have upt: "[i..<n] = i # [Suc i..<n]" by (rule upt_conv_Cons)
  show ?case
    by (subst gen_loop.simps) (simp add: lt Suc.hyps(1) [OF k] upt Let_def)
qed

lemma generateIndices_writable:
  assumes "writable w"
  shows "generateIndices w draw ix e n =
           (emit generated_msg (w\<lparr>cached_file := Some (print_indices (draws draw e n))\<rparr>),
            True, ix @ draws draw e n)"
  using assms
  by (simp add: generateIndices_def gen_loop_eq print_indices_def draws_def generated_msg_def
      comp_def map_concat)

lemma generateIndices_not_writable:
  "\<not> writable w \<Longrightarrow> generateIndices w draw ix e n = (emit cant_open_msg w, False, ix)"
  by (simp add: generateIndices_def cant_open_msg_def)

lemma draws_in_range:
  assumes "endIdx \<noteq> 0" and "dist_in_range draw endIdx (unat n)" and "x \<in> set (draws draw endIdx n)"
  shows "x < endIdx"
proof -
  from assms(3) obtain i where "i < unat n" and "x = draw 0 (endIdx - 1) i"
    by (auto simp: draws_def)
  with assms(2) have "x \<le> endIdx - 1" by (simp add: dist_in_range_def)
  with assms(1) show ?thesis
    using measure_unat [of endIdx] by (simp add: word_le_nat_alt word_less_nat_alt)
qed

lemma draws_const: "draws (const_draw v) e n = replicate (unat n) v"
  by (simp add: draws_def const_draw_def [abs_def] map_replicate_const)

lemma read_loop_eof:
  "fgets 128 s = None \<Longrightarrow> read_loop e n s (ix, mx, out) = (ix, mx, out)"
  by (simp add: read_loop.simps)

lemma read_loop_invalid:
  "fgets 128 s = Some (buf, s') \<Longrightarrow> invalid_line e buf \<Longrightarrow>
   read_loop e n s (ix, mx, out) = (ix, mx, out @ [Print (''invalid line: '' @ c_str buf)])"
  by (simp add: read_loop.simps)

lemma read_loop_full:
  "fgets 128 s = Some (buf, s') \<Longrightarrow> \<not> invalid_line e buf \<Longrightarrow> unat n < Suc (length ix) \<Longrightarrow>
   read_loop e n s (ix, mx, out) = (ix @ [line_idx buf], max mx (line_idx buf), out)"
  by (simp add: read_loop.simps [of e n s] Let_def line_idx_def)

lemma read_loop_next:
  "fgets 128 s = Some (buf, s') \<Longrightarrow> \<not> invalid_line e buf \<Longrightarrow> \<not> unat n < Suc (length ix) \<Longrightarrow>
   read_loop e n s (ix, mx, out) =
   read_loop e n s' (ix @ [line_idx buf], max mx (line_idx buf), out)"
  by (simp add: read_loop.simps [of e n s] Let_def line_idx_def)

lemma read_loop_cases [case_names eof invalid full more]:
  assumes "fgets 128 s = None \<Longrightarrow> P"
    and "\<And>buf s'. fgets 128 s = Some (buf, s') \<Longrightarrow> invalid_line e buf \<Longrightarrow> P"
    and "\<And>buf s'. fgets 128 s = Some (buf, s') \<Longrightarrow> \<not> invalid_line e buf \<Longrightarrow>
           unat n < Suc (length ix) \<Longrightarrow> P"
    and "\<And>buf s'. fgets 128 s = Some (buf, s') \<Longrightarrow> \<not> invalid_line e buf \<Longrightarrow>
           \<not> unat n < Suc (length ix) \<Longrightarrow> P"
  shows P
proof (cases "fgets 128 s")
  case None
  then show ?thesis by (rule assms(1))
next
  case (Some p)
  obtain buf s' where "p = (buf, s')" by (cases p)
  with Some have f: "fgets 128 s = Some (buf, s')" by simp
  show ?thesis
    using assms(2) [OF f] assms(3) [OF f] assms(4) [OF f] by blast
qed

lemma fgets_shorter: "fgets 128 s = Some (buf, s') \<Longrightarrow> length s' < length s"
  using fgets_take_shorter [of s 126] by (auto simp: fgets_def split: if_splits)

lemma read_loop_out:
  "read_loop e n s (ix, mx, out) =
     (case read_loop e n s (ix, mx, []) of (a, b, ex) \<Rightarrow> (a, b, out @ ex))"
proof (induction s arbitrary: ix mx rule: length_induct)
  case (1 s)
  show ?case
  proof (cases rule: read_loop_cases [where s = s and e = e and n = n and ix = ix])
    case eof
    then show ?thesis by (simp add: read_loop_eof)
  next
    case (invalid buf s')
    then show ?thesis by (simp add: read_loop_invalid)
  next
    case (full buf s')
    then show ?thesis by (simp add: read_loop_full)
  next
    case (more buf s')
    then show ?thesis
      using 1 fgets_shorter [OF more(1)] by (simp add: read_loop_next)
  qed
qed

text \<open>What the loop leaves: the vector only grows, by valid indices; maxIdx is the
  maximum of the old value and everything appended; at most one line is printed.\<close>

lemma read_loop_result:
  assumes "read_loop e n s (ix, mx, out) = (ix', mx', out')"
  shows "\<exists>new. ix' = ix @ new \<and> mx' = foldl max mx new \<and> (\<forall>x \<in> set new. x < e)
           \<and> length new \<le> length s
           \<and> (length ix \<le> unat n \<longrightarrow> length ix' \<le> Suc (unat n))
           \<and> (out' = out \<or> (\<exists>l. out' = out @ [Print (''invalid line: '' @ l)]))"
  using assms
proof (induction s arbitrary: ix mx rule: length_induct)
  case (1 s)
  show ?case
  proof (cases rule: read_loop_cases [where s = s and e = e and n = n and ix = ix])
    case eof
    with 1(2) show ?thesis by (simp add: read_loop_eof)
  next
    case (invalid buf s')
    with 1(2) show ?thesis by (auto simp add: read_loop_invalid)
  next
    case (full buf s')
    from full(2) have "line_idx buf < e"
      by (auto simp: invalid_line_def line_idx_def split: prod.splits)
    moreover from full(1) have "s \<noteq> []" by (auto simp: fgets_def split: if_splits)
    ultimately show ?thesis using 1(2) full
      by (cases s) (auto simp add: read_loop_full intro!: exI [of _ "[line_idx buf]"])
  next
    case (more buf s')
    from more(2) have v: "line_idx buf < e"
      by (auto simp: invalid_line_def line_idx_def split: prod.splits)
    from 1(2) more have "read_loop e n s' (ix @ [line_idx buf], max mx (line_idx buf), out) = (ix', mx', out')"
      by (simp add: read_loop_next)
    from 1(1) [rule_format, OF fgets_shorter [OF more(1)] this]
    obtain new where new: "ix' = (ix @ [line_idx buf]) @ new" "mx' = foldl max (max mx (line_idx buf)) new"
      "\<forall>x \<in> set new. x < e" "length new \<le> length s'"
      "length (ix @ [line_idx buf]) \<le> unat n \<longrightarrow> length ix' \<le> Suc (unat n)"
      "out' = out \<or> (\<exists>l. out' = out @ [Print (''invalid line: '' @ l)])"
      by blast
    show ?thesis
      using new v more(3) fgets_shorter [OF more(1)]
      by (intro exI [of _ "line_idx buf # new"]) auto
  qed
qed

text \<open>Reading a file of printed indices, all below the bound and below \<open>2^63\<close>:
  the loop appends them in order until the vector holds \<open>numIndices + 1\<close> entries.\<close>

lemma read_loop_printed:
  assumes "\<forall>x \<in> set xs. x < e \<and> x < 2 ^ 63" and "length ix \<le> unat n"
  shows "read_loop e n (print_indices xs) (ix, mx, out) =
           (ix @ take (Suc (unat n) - length ix) xs,
            foldl max mx (take (Suc (unat n) - length ix) xs), out)"
  using assms
proof (induction xs arbitrary: ix mx)
  case Nil
  then show ?case by (simp add: print_indices_def read_loop_eof fgets_def)
next
  case (Cons x xs)
  have f: "fgets 128 (print_indices (x # xs)) = Some (fprintf_lu x, print_indices xs)"
    by (simp add: print_indices_def fgets_fprintf_lu)
  from Cons.prems have x: "x < e" "x < 2 ^ 63" by auto
  note v = valid_fprintf_lu [OF x(2) x(1)]
  show ?case
  proof (cases "unat n < Suc (length ix)")
    case True
    with Cons.prems(2) have "Suc (unat n) - length ix = Suc 0" by simp
    with True show ?thesis
      by (simp add: read_loop_full [OF f v] line_idx_fprintf_lu [OF x(2)])
  next
    case False
    then have le: "length (ix @ [x]) \<le> unat n" by simp
    from False have "Suc (unat n) - length ix = Suc (Suc (unat n) - length (ix @ [x]))" by simp
    then show ?thesis
      using Cons.IH [OF _ le, of "max mx x"] Cons.prems(1)
      by (simp add: read_loop_next [OF f v False] line_idx_fprintf_lu [OF x(2)])
  qed
qed

lemma foldl_max_cases: "foldl max (mx :: ulong) xs = mx \<or> foldl max mx xs \<in> set xs"
proof (induction xs arbitrary: mx)
  case Nil
  show ?case by simp
next
  case (Cons x xs)
  from Cons [of "max mx x"] show ?case by (auto simp: max_def split: if_splits)
qed

lemma gap_exceeds:
  assumes "unat mx + 10000000 < unat (endIdx :: ulong) - 1"
  shows "10000000 < endIdx - mx"
proof -
  from assms have "mx \<le> endIdx" by (simp add: word_le_nat_alt)
  then have "unat (endIdx - mx) = unat endIdx - unat mx" by (rule unat_sub)
  with assms show ?thesis by (simp add: word_less_nat_alt)
qed

lemma emit_simps [simp]:
  "trace (emit ev w) = trace w @ [ev]"
  "cached_file (emit ev w) = cached_file w"
  "writable (emit ev w) = writable w"
  by (simp_all add: emit_def)

lemma emit_env [simp]:
  "mmap_ok (emit ev w) = mmap_ok w"
  "madvise_ok (emit ev w) = madvise_ok w"
  "thp_file (emit ev w) = thp_file w"
  by (simp_all add: emit_def)

lemma new_events_app [simp]: "trace w' = trace w @ evs \<Longrightarrow> new_events w w' = evs"
  by (simp add: new_events_def)

lemma invalid_line_msg_neq [simp]:
  "Print (''invalid line: '' @ l) \<noteq> regenerating_msg"
  "Print (''invalid line: '' @ l) \<noteq> generated_msg"
  by (simp_all add: regenerating_msg_def generated_msg_def)

lemma regenerating_neq_generated [simp]: "regenerating_msg \<noteq> generated_msg"
  by (simp add: regenerating_msg_def generated_msg_def)

lemma readIndices_missing:
  "cached_file w = None \<Longrightarrow>
   readIndices w draw ix0 e n = generateIndices w draw ix0 e n"
  by (simp add: readIndices_def)

lemma readIndices_present:
  assumes "cached_file w = Some content"
    and "read_loop e n content (ix0, 0, trace w) = (ix, mx, out)"
  shows "readIndices w draw ix0 e n =
          (if 10000000 < e - mx \<or> length ix \<noteq> unat n
           then generateIndices (emit regenerating_msg (w\<lparr>trace := out\<rparr>)) draw [] e n
           else (w\<lparr>trace := out\<rparr>, True, ix))"
  using assms by (simp add: readIndices_def regenerating_msg_def)

lemma read_loop_trace:
  assumes "read_loop e n s (ix0, mx0, out0) = (ix, mx, out)"
  shows "\<exists>ex. out = out0 @ ex \<and> regenerating_msg \<notin> set ex \<and> generated_msg \<notin> set ex"
proof -
  from read_loop_result [OF assms]
  have "out = out0 \<or> (\<exists>l. out = out0 @ [Print (''invalid line: '' @ l)])" by blast
  then show ?thesis
  proof
    assume "out = out0"
    then show ?thesis by (intro exI [of _ "[]"]) simp
  next
    assume "\<exists>l. out = out0 @ [Print (''invalid line: '' @ l)]"
    then obtain l where "out = out0 @ [Print (''invalid line: '' @ l)]" ..
    then show ?thesis
      using invalid_line_msg_neq [of l]
      by (intro exI [of _ "[Print (''invalid line: '' @ l)]"]) auto
  qed
qed

lemma accept_iff:
  assumes "cached_file w = Some content"
    and "read_loop endIdx numIndices content ([], 0, trace w) = (ix, mx, out)"
  shows "regenerating_msg \<notin> set (new_events w (fst (readIndices w draw [] endIdx numIndices)))
         \<longleftrightarrow> length ix = unat numIndices \<and> endIdx - mx \<le> 10000000"
proof -
  from read_loop_trace [OF assms(2)] obtain ex where
    ex: "out = trace w @ ex" "regenerating_msg \<notin> set ex" "generated_msg \<notin> set ex" by blast
  show ?thesis
  proof (cases "10000000 < endIdx - mx \<or> length ix \<noteq> unat numIndices")
    case True
    let ?w = "emit regenerating_msg (w\<lparr>trace := out\<rparr>)"
    have r: "readIndices w draw [] endIdx numIndices = generateIndices ?w draw [] endIdx numIndices"
      using readIndices_present [OF assms] True by simp
    have "\<exists>ev. trace (fst (generateIndices ?w draw [] endIdx numIndices)) = trace ?w @ [ev]"
      by (cases "writable ?w") (simp_all add: generateIndices_writable generateIndices_not_writable)
    then obtain ev where "trace (fst (readIndices w draw [] endIdx numIndices))
        = trace w @ (ex @ [regenerating_msg, ev])"
      using r ex(1) by auto
    then have "new_events w (fst (readIndices w draw [] endIdx numIndices)) = ex @ [regenerating_msg, ev]"
      by (rule new_events_app)
    with True show ?thesis by auto
  next
    case False
    then have "readIndices w draw [] endIdx numIndices = (w\<lparr>trace := out\<rparr>, True, ix)"
      using readIndices_present [OF assms] by simp
    then have "new_events w (fst (readIndices w draw [] endIdx numIndices)) = ex"
      using ex(1) by (simp add: new_events_def)
    with False ex(2) show ?thesis by auto
  qed
qed

lemma stale_regenerates:
  assumes "cached_file w = Some (print_indices xs)" and "xs \<noteq> []"
    and "\<forall>x \<in> set xs. x < 2 ^ 63 \<and> unat x + 10000000 < unat endIdx - 1"
  shows "readIndices w draw [] endIdx numIndices =
           generateIndices (emit regenerating_msg w) draw [] endIdx numIndices"
proof -
  let ?ix = "take (Suc (unat numIndices)) xs"
  have v: "\<forall>x \<in> set xs. x < endIdx \<and> x < 2 ^ 63"
    using assms(3) by (auto simp: word_less_nat_alt)
  have r: "read_loop endIdx numIndices (print_indices xs) ([], 0, trace w)
            = ([] @ take (Suc (unat numIndices) - length ([] :: ulong list)) xs,
               foldl max 0 (take (Suc (unat numIndices) - length ([] :: ulong list)) xs), trace w)"
    by (rule read_loop_printed [OF v]) simp
  obtain x where x: "x \<in> set xs" using assms(2) by (cases xs) auto
  with assms(3) have z: "unat (0 :: ulong) + 10000000 < unat endIdx - 1" by auto
  have "unat (foldl max 0 ?ix) + 10000000 < unat endIdx - 1"
    using foldl_max_cases [of 0 ?ix] z assms(3) by (auto dest: in_set_takeD)
  then have "10000000 < endIdx - foldl max 0 ?ix" by (rule gap_exceeds)
  then show ?thesis
    using readIndices_present [OF assms(1), of endIdx numIndices "[]" ?ix "foldl max 0 ?ix" "trace w" draw] r
    by simp
qed

text \<open>The read loop in terms of the file's lines: it takes the valid lines from
  the start, at most \<open>numIndices + 1\<close> of them, and prints the line it stopped at
  when that line is invalid.\<close>

lemma chunks_eof: "fgets 128 s = None \<Longrightarrow> chunks s = []"
  by (subst chunks.simps) simp

lemma chunks_line: "fgets 128 s = Some (buf, s') \<Longrightarrow> chunks s = buf # chunks s'"
  by (subst chunks.simps) simp

lemma read_loop_chunks:
  assumes "length ix0 \<le> unat n"
  shows "read_loop e n s (ix0, mx0, out0) =
     (ix0 @ map line_idx (take (Suc (unat n) - length ix0) (valid_lines e s)),
      foldl max mx0 (map line_idx (take (Suc (unat n) - length ix0) (valid_lines e s))),
      out0 @ (if length (valid_lines e s) < Suc (unat n) - length ix0
                 \<and> length (valid_lines e s) < length (chunks s)
              then [Print (''invalid line: '' @ c_str (chunks s ! length (valid_lines e s)))]
              else []))"
  using assms
proof (induction s arbitrary: ix0 mx0 rule: length_induct)
  case (1 s)
  show ?case
  proof (cases rule: read_loop_cases [where s = s and e = e and n = n and ix = ix0])
    case eof
    then show ?thesis by (simp add: read_loop_eof chunks_eof valid_lines_def)
  next
    case (invalid buf s')
    with 1(2) show ?thesis
      by (simp add: read_loop_invalid chunks_line valid_lines_def)
  next
    case (full buf s')
    with 1(2) have "Suc (unat n) - length ix0 = Suc 0" by simp
    with full show ?thesis
      by (simp add: read_loop_full chunks_line valid_lines_def)
  next
    case (more buf s')
    from more(3) have le: "length (ix0 @ [line_idx buf]) \<le> unat n" by simp
    from more(3) have d: "Suc (unat n) - length ix0 = Suc (Suc (unat n) - length (ix0 @ [line_idx buf]))"
      by simp
    note IH = 1(1) [rule_format, OF fgets_shorter [OF more(1)] le, of "max mx0 (line_idx buf)"]
    have v: "valid_lines e s = buf # valid_lines e s'"
      using more(1,2) by (simp add: valid_lines_def chunks_line)
    show ?thesis
      unfolding read_loop_next [OF more] IH d v chunks_line [OF more(1)]
      by simp
  qed
qed

lemma stale_lines_regenerate:
  assumes "cached_file w = Some content" and "chunks content \<noteq> []"
    and "\<forall>buf \<in> set (chunks content). \<not> invalid_line endIdx buf
           \<and> unat (line_idx buf) + 10000000 < unat endIdx - 1"
  shows "readIndices w draw [] endIdx numIndices =
           generateIndices (emit regenerating_msg w) draw [] endIdx numIndices"
proof -
  let ?ix = "map line_idx (take (Suc (unat numIndices)) (chunks content))"
  from assms(3) have v: "valid_lines endIdx content = chunks content"
    by (simp add: valid_lines_def)
  have r: "read_loop endIdx numIndices content ([], 0, trace w) = (?ix, foldl max 0 ?ix, trace w)"
    using read_loop_chunks [of "[]" numIndices endIdx content 0 "trace w"] by (simp add: v)
  obtain buf where "buf \<in> set (chunks content)" using assms(2) by (cases "chunks content") auto
  with assms(3) have z: "unat (0 :: ulong) + 10000000 < unat endIdx - 1" by auto
  have "\<forall>x \<in> set ?ix. unat x + 10000000 < unat endIdx - 1"
    using assms(3) by (auto dest: in_set_takeD)
  then have "unat (foldl max 0 ?ix) + 10000000 < unat endIdx - 1"
    using foldl_max_cases [of 0 ?ix] z by auto
  then have "10000000 < endIdx - foldl max 0 ?ix" by (rule gap_exceeds)
  then show ?thesis
    using readIndices_present [OF assms(1) r, of draw] by simp
qed

lemma reload_generated:
  assumes "cached_file w1 = Some (print_indices s)"
    and "\<forall>x \<in> set s. x < endIdx \<and> x < 2 ^ 63"
    and "length s = unat numIndices"
    and "endIdx - foldl max 0 s \<le> 10000000"
  shows "readIndices w1 draw2 [] endIdx numIndices = (w1, True, s)"
proof -
  have "read_loop endIdx numIndices (print_indices s) ([], 0, trace w1)
          = ([] @ take (Suc (unat numIndices) - length ([] :: ulong list)) s,
             foldl max 0 (take (Suc (unat numIndices) - length ([] :: ulong list)) s), trace w1)"
    by (rule read_loop_printed [OF assms(2)]) simp
  with assms(3) have r: "read_loop endIdx numIndices (print_indices s) ([], 0, trace w1)
          = (s, foldl max 0 s, trace w1)" by simp
  from assms(4) have n: "\<not> 10000000 < endIdx - foldl max 0 s" by (simp add: not_less)
  show ?thesis
    using readIndices_present [OF assms(1) r, of draw2] assms(3) n by simp
qed

lemma reload_accepted:
  assumes "cached_file w = Some content"
    and "read_loop endIdx numIndices content ([], 0, trace w) = (ix, mx, out)"
    and "\<not> (10000000 < endIdx - mx \<or> length ix \<noteq> unat numIndices)"
  shows "\<exists>ex. readIndices (w\<lparr>trace := out\<rparr>) draw2 [] endIdx numIndices
            = (w\<lparr>trace := out @ ex\<rparr>, True, ix)
          \<and> regenerating_msg \<notin> set ex \<and> generated_msg \<notin> set ex"
proof -
  obtain a b ex where e: "read_loop endIdx numIndices content ([], 0, []) = (a, b, ex)"
    by (cases "read_loop endIdx numIndices content ([], 0, [])") auto
  from read_loop_trace [OF e] have ex: "regenerating_msg \<notin> set ex" "generated_msg \<notin> set ex"
    by auto
  from assms(2) e have ab: "a = ix" "b = mx"
    using read_loop_out [of endIdx numIndices content "[]" 0 "trace w"] by simp_all
  have c: "cached_file (w\<lparr>trace := out\<rparr>) = Some content" using assms(1) by simp
  have r: "read_loop endIdx numIndices content ([], 0, trace (w\<lparr>trace := out\<rparr>)) = (ix, mx, out @ ex)"
    using read_loop_out [of endIdx numIndices content "[]" 0 out] e ab by simp
  have "readIndices (w\<lparr>trace := out\<rparr>) draw2 [] endIdx numIndices = (w\<lparr>trace := out @ ex\<rparr>, True, ix)"
    using readIndices_present [OF c r, of draw2] assms(3) by simp
  with ex show ?thesis by blast
qed

lemma readIndices_in_range:
  assumes "readIndices w draw [] endIdx numIndices = (w', True, s)"
    and "endIdx \<noteq> 0" and "dist_in_range draw endIdx (unat numIndices)"
  shows "\<forall>x \<in> set s. x < endIdx"
proof -
  have fresh_case: ?thesis
    if g: "generateIndices w0 draw [] endIdx numIndices = (w', True, s)" for w0
  proof -
    from g have wr: "writable w0" by (cases "writable w0") (auto simp: generateIndices_not_writable)
    from g have "s = draws draw endIdx numIndices"
      by (auto simp: generateIndices_writable [OF wr])
    then show ?thesis using draws_in_range [OF assms(2,3)] by blast
  qed
  show ?thesis
  proof (cases "cached_file w")
    case None
    with assms(1) show ?thesis by (intro fresh_case [of w]) (simp add: readIndices_missing)
  next
    case (Some content)
    obtain ix mx out where r: "read_loop endIdx numIndices content ([], 0, trace w) = (ix, mx, out)"
      by (cases "read_loop endIdx numIndices content ([], 0, trace w)") auto
    show ?thesis
    proof (cases "10000000 < endIdx - mx \<or> length ix \<noteq> unat numIndices")
      case True
      with assms(1) show ?thesis
        using readIndices_present [OF Some r, of draw]
        by (intro fresh_case [of "emit regenerating_msg (w\<lparr>trace := out\<rparr>)"]) simp
    next
      case False
      with assms(1) have "s = ix"
        using readIndices_present [OF Some r, of draw] by simp
      with read_loop_result [OF r] show ?thesis by auto
    qed
  qed
qed

section \<open>Values of the double arithmetic\<close>

text \<open>The literals as significand and exponent: \<^verbatim>\<open>0x1.12e0be826d695p-30\<close>,
  \<^verbatim>\<open>0x1.eb851eb851eb8p-6\<close> and \<^verbatim>\<open>0x1.5798ee2308c3ap-28\<close>. Rounding shows: the double
  product of \<^verbatim>\<open>1e-9\<close> and 3 is not the double nearest to \<open>3 / 10 ^ 9\<close>, while
  that of \<^verbatim>\<open>1e-9\<close> and 5 is the double nearest to \<open>5 / 10 ^ 9\<close>.\<close>

lemma c_1e_9_bits: "c_1e_9 = 0x112E0BE826D695 / 2 ^ 82"
  by code_simp

lemma c_0_03_bits: "c_0_03 = 0x1EB851EB851EB8 / 2 ^ 58"
  by code_simp

lemma c_5e_9_bits: "c_5e_9 = 0x15798EE2308C3A / 2 ^ 80"
  by code_simp

lemma three_e_9: "fmul c_1e_9 (b64_round 3) \<noteq> b64_round (3 / 10 ^ 9)"
  by code_simp

section \<open>The option loop and the number of indices\<close>

lemma numIndices_ok_0: "list_all numIndices_ok [0..32]" by code_simp

lemma numIndices_ok_1: "list_all numIndices_ok [33..64]" by code_simp

lemma numIndices_ok_2: "list_all numIndices_ok [65..96]" by code_simp

lemma numIndices_ok_3: "list_all numIndices_ok [97..128]" by code_simp

lemma numIndices_ok_all: "0 \<le> k \<Longrightarrow> k \<le> 128 \<Longrightarrow> numIndices_ok k"
proof -
  assume "0 \<le> k" "k \<le> 128"
  then have "k \<in> set [0..32] \<or> k \<in> set [33..64] \<or> k \<in> set [65..96] \<or> k \<in> set [97..128]"
    by (simp only: set_upto) auto
  then show ?thesis
    using numIndices_ok_0 numIndices_ok_1 numIndices_ok_2 numIndices_ok_3
    unfolding list_all_iff by blast
qed

lemma sized_initial: "sized initial_locals"
  unfolding sized_def initial_locals_def by (intro exI [of _ 32]) simp

lemma getopt_loop_sized:
  "getopt_loop name os st w = Inr (st', w') \<Longrightarrow> sized st \<Longrightarrow> sized st'"
proof (induction name os st w rule: getopt_loop.induct)
  case (5 name num endc os st w)
  then show ?case
    by (auto simp: Let_def sized_def not_less split: if_splits)
qed (auto simp: sized_def split: if_splits)

lemma sized_endIdx:
  assumes "sized st"
  shows "\<exists>k. 0 \<le> k \<and> k \<le> 128 \<and> uint (st_endIdx st) = k * 2 ^ 27"
proof -
  from assms obtain num :: ulong where num: "num \<le> 128"
    "st_arraySize st = num * 1024 * 1024 * 1024" "st_endIdx st = st_arraySize st div 8"
    by (auto simp: sized_def)
  from num(1) have n: "unat num \<le> 128" by (simp add: word_le_nat_alt)
  have m: "unat (num * 1073741824) = unat num * unat (1073741824 :: ulong)"
    using n by (intro unat_mult_lem [THEN iffD1]) simp
  have "st_arraySize st = num * 1073741824" using num(2) by simp
  then have "unat (st_arraySize st) = unat (num * 1073741824)" by (rule arg_cong)
  also note m
  finally have "unat (st_arraySize st) = unat num * 1073741824" by simp
  then have "unat (st_endIdx st) = unat num * 1073741824 div 8"
    using num(3) by (simp add: unat_div)
  then have "unat (st_endIdx st) = unat num * 2 ^ 27" by simp
  then have "int (unat (st_endIdx st)) = int (unat num) * 2 ^ 27" by simp
  then have "uint (st_endIdx st) = int (unat num) * 2 ^ 27" by simp
  moreover from num(1) have "uint num \<le> 128" by (simp add: word_le_def)
  ultimately show ?thesis by (intro exI [of _ "uint num"]) simp
qed

lemma numIndices_of_sized:
  assumes "sized st"
  shows "uint (numIndices_of (st_endIdx st)) = uint (st_endIdx st) * 3 div 100"
proof -
  from sized_endIdx [OF assms] obtain k where k: "0 \<le> k" "k \<le> 128"
    "uint (st_endIdx st) = k * 2 ^ 27" by blast
  from numIndices_ok_all [OF k(1,2)]
  have "numIndices_of (st_endIdx st) = word_of_int (k * 2 ^ 27 * 3 div 100)"
    by (simp add: numIndices_of_def ulong_of_double_def double_of_ulong_def k(3) numIndices_ok_def)
  moreover have "0 \<le> k * 2 ^ 27 * 3 div 100" using k(1) by simp
  moreover have "k * 2 ^ 27 * 3 div 100 < 2 ^ 64" using k(2) by simp
  ultimately show ?thesis by (simp add: k(3) uint_word_of_int take_bit_int_eq_self)
qed

lemma numIndices_of_1GiB: "numIndices_of 134217728 = 4026531"
proof -
  have "numIndices_ok 1" by (rule numIndices_ok_all) simp_all
  then show ?thesis
    by (simp add: numIndices_of_def ulong_of_double_def double_of_ulong_def numIndices_ok_def)
qed

lemma thp_unreadable_disabled: "thp_unreadable w \<Longrightarrow> \<not> thp_enabled w"
  by (auto simp: thp_unreadable_def thp_enabled_def split: option.splits)

lemma never_disabled: "\<not> thp_enabled (w\<lparr>thp_file := Some never_line\<rparr>)"
  by (simp add: thp_enabled_def never_line_def getline_def newline_def)

lemma getopt_loop_reaches_m:
  "\<not> thp_enabled w \<Longrightarrow> \<forall>opt \<in> set pre. passes opt \<Longrightarrow>
   getopt_loop name (pre @ OptM # post) st w = Inl (emit thp_disabled_msg w, Exit 1)"
proof (induction pre arbitrary: st)
  case Nil
  then show ?case by simp
next
  case (Cons opt pre)
  then show ?case by (cases opt) (auto simp: passes_def Let_def not_less)
qed

lemma getopt_loop_m:
  "\<not> thp_enabled w \<Longrightarrow> \<not> thp_enabled w2 \<Longrightarrow> OptM \<in> set os \<Longrightarrow>
   (getopt_loop name os st w = Inl (emit thp_disabled_msg w, Exit 1)
      \<and> getopt_loop name os st w2 = Inl (emit thp_disabled_msg w2, Exit 1))
   \<or> (getopt_loop name os st w = Inl (usage name w)
      \<and> getopt_loop name os st w2 = Inl (usage name w2))"
proof (induction os arbitrary: st)
  case Nil
  then show ?case by simp
next
  case (Cons opt os)
  then show ?case by (cases opt) (auto simp: Let_def)
qed

lemma usage_thp_file:
  "usage name (w\<lparr>thp_file := t\<rparr>) = ((fst (usage name w))\<lparr>thp_file := t\<rparr>, snd (usage name w))"
  by (simp add: usage_def emit_def)

lemma usage_exit: "snd (usage name w) = Exit 1"
  by (simp add: usage_def)

lemma usage_trace: "\<exists>ls. trace (fst (usage name w)) = trace w @ map Print ls"
  by (rule exI [of _ "[''Usage: '' @ name @ '' [-h] [-s sizeInGib] [-m] [-t]'', ''Options'',
      '' -h: display usage'', '' -m: madvise the memory with MADV_HUGEPAGE (THP), conflicts with -t'',
      '' -s sizeInGib: array size, default is 32Gib, max 128Gib'',
      '' -t: allocate the array with MAP_HUGETLB (hugetlbfs), conflicts with -m'']"])
    (simp add: usage_def)

section \<open>The two timed loops\<close>

lemma word_inc_le_iff:
  assumes "i < (endIdx :: ulong)"
  shows "i + 1 \<le> j \<longleftrightarrow> i < j"
  using unat_inc [OF assms] by (auto simp: word_le_nat_alt word_less_nat_alt)

lemma init_loop_eq:
  "i \<le> endIdx \<Longrightarrow>
   init_loop endIdx i (array, written) =
     (\<lambda>j. if i \<le> j \<and> j < endIdx then fmul c_1e_9 (double_of_ulong (j mod 79)) else array j,
      written @ map of_nat [unat i..<unat endIdx])"
proof (induction "unat endIdx - unat i" arbitrary: i array written)
  case 0
  then have "i = endIdx" by (simp add: word_le_nat_alt word_unat_eq_iff)
  then show ?case by (subst init_loop.simps) (auto simp: fun_eq_iff)
next
  case (Suc k)
  then have lt: "i < endIdx" by (simp add: word_less_nat_alt)
  note inc = unat_inc [OF lt]
  from lt have le: "i + 1 \<le> endIdx" by (rule inc_le)
  from Suc.hyps(2) inc have k: "k = unat endIdx - unat (i + 1)" by simp
  from lt have upt: "[unat i..<unat endIdx] = unat i # [unat (i + 1)..<unat endIdx]"
    by (simp add: upt_conv_Cons word_less_nat_alt inc)
  have f: "(\<lambda>j. if i + 1 \<le> j \<and> j < endIdx then fmul c_1e_9 (double_of_ulong (j mod 79))
                else (array(i := fmul c_1e_9 (double_of_ulong (i mod 79)))) j)
         = (\<lambda>j. if i \<le> j \<and> j < endIdx then fmul c_1e_9 (double_of_ulong (j mod 79)) else array j)"
    using lt by (auto simp: fun_eq_iff word_inc_le_iff [OF lt])
  show ?case
    by (subst init_loop.simps) (simp add: lt Suc.hyps(1) [OF k le] upt f)
qed

lemma unat_of_nat64: "n < 2 ^ 64 \<Longrightarrow> unat (of_nat n :: ulong) = n"
  by (simp add: unat_of_nat)

lemma of_nat_upt_sorted: "n < 2 ^ 64 \<Longrightarrow> sorted_wrt (<) (map of_nat [0..<n] :: ulong list)"
  by (auto simp: sorted_wrt_iff_nth_less word_less_nat_alt unat_of_nat64)

lemma of_nat_upt_set: "set (map of_nat [0..<unat (endIdx :: ulong)]) = {i. i < endIdx}"
proof -
  have "i \<in> of_nat ` {0..<unat endIdx}" if "i < endIdx" for i
    using that by (intro image_eqI [of _ _ "unat i"]) (simp_all add: word_less_nat_alt)
  moreover have "of_nat n < endIdx" if "n < unat endIdx" for n
  proof -
    have "unat endIdx < 2 ^ 64" using unsigned_less [of endIdx, where ?'a = nat] by simp
    with that have "unat (of_nat n :: ulong) = n" by (intro unat_of_nat64) simp
    with that show ?thesis by (simp add: word_less_nat_alt)
  qed
  ultimately show ?thesis by auto
qed

lemma five_e_9: "fmul c_1e_9 (b64_round 5) = c_5e_9"
  by code_simp

lemma access_loop_sum:
  "\<forall>u \<in> set us. u < endIdx \<Longrightarrow>
   access_loop array endIdx us r = Some (foldl fadd r (map array us))"
  by (induction us arbitrary: r) auto

lemma access_after_init:
  assumes "\<forall>u \<in> set indices. u < endIdx"
  shows "access_loop (fst (init_loop endIdx 0 (array0, []))) endIdx indices 0
           = Some (spec_access_sum indices)"
proof -
  have m: "map (fst (init_loop endIdx 0 (array0, []))) indices = map slot_value indices"
    using assms by (auto simp: init_loop_eq slot_value_def)
  show ?thesis by (simp only: access_loop_sum [OF assms] spec_access_sum_def m)
qed

lemma benchmark_success:
  assumes "\<forall>u \<in> set indices. u < st_endIdx st" and "run_ok st w"
  shows "snd (benchmark st indices w) = Exit 0
    \<and> new_events w (fst (benchmark st indices w))
        = Mmap (st_arraySize st) (st_hugetlb st) # (if st_thp st then [Madvise] else [])
          @ [Print ''Initializing the array'', PrintInitTime, PrintAddTime,
             PrintResult (spec_access_sum indices), Munmap]"
proof -
  obtain array written where i: "init_loop (st_endIdx st) 0 (\<lambda>i. 0, []) = (array, written)"
    by (cases "init_loop (st_endIdx st) 0 (\<lambda>i. 0, [])") auto
  from access_after_init [OF assms(1), of "\<lambda>i. 0"] i
  have a: "access_loop array (st_endIdx st) indices 0 = Some (spec_access_sum indices)" by simp
  show ?thesis
    using assms(2) by (simp add: benchmark_def Let_def i a run_ok_def new_events_def)
qed

lemma sized_endIdx_nonzero:
  assumes "sized st" and "st_arraySize st \<noteq> 0"
  shows "st_endIdx st \<noteq> 0"
proof
  assume z: "st_endIdx st = 0"
  from assms(1) obtain num :: ulong where num: "num \<le> 128"
    "st_arraySize st = num * 1024 * 1024 * 1024" "st_endIdx st = st_arraySize st div 8"
    by (auto simp: sized_def)
  from sized_endIdx [OF assms(1)] z obtain k where "uint (0 :: ulong) = k * 2 ^ 27" "0 \<le> k"
    by auto
  then have "k = 0" by simp
  from num(1) have n: "unat num \<le> 128" by (simp add: word_le_nat_alt)
  have m: "unat (num * 1073741824) = unat num * unat (1073741824 :: ulong)"
    using n by (intro unat_mult_lem [THEN iffD1]) simp
  have a: "st_arraySize st = num * 1073741824" using num(2) by simp
  then have "unat (st_arraySize st) = unat num * 1073741824" using m by simp
  moreover have "unat (st_endIdx st) = unat (st_arraySize st) div 8"
    using num(3) by (simp add: unat_div)
  ultimately have "unat num * 1073741824 div 8 = 0" using z by simp
  then have "unat num = 0" by simp
  then have "num = 0" by (simp add: unat_eq_0)
  with a assms(2) show False by simp
qed

text \<open>A run of \<^verbatim>\<open>main\<close> that gets its indices and is not aborted: it never reads
  outside the array, prints the sum over the index set and unmaps last.\<close>

lemma main_completes:
  assumes "getopt_loop name opts initial_locals w = Inr (st, w1)"
    and "\<not> (st_hugetlb st \<and> st_thp st)" and "\<not> extra"
    and "readIndices (emit (Print ''Getting the indices'') w1) draw [] (st_endIdx st)
           (numIndices_of (st_endIdx st)) = (w2, True, s)"
    and "dist_in_range draw (st_endIdx st) (unat (numIndices_of (st_endIdx st)))"
    and "run_ok st w2"
  shows "snd (main name opts extra draw w) = Exit 0
    \<and> new_events w2 (fst (main name opts extra draw w))
        = Mmap (st_arraySize st) (st_hugetlb st) # (if st_thp st then [Madvise] else [])
          @ [Print ''Initializing the array'', PrintInitTime, PrintAddTime,
             PrintResult (spec_access_sum s), Munmap]"
proof -
  from getopt_loop_sized [OF assms(1) sized_initial] have sz: "sized st" .
  from assms(6) have "st_arraySize st \<noteq> 0" by (simp add: run_ok_def)
  with sz have nz: "st_endIdx st \<noteq> 0" by (rule sized_endIdx_nonzero)
  from readIndices_in_range [OF assms(4) nz assms(5)]
  have v: "\<forall>u \<in> set s. u < st_endIdx st" .
  have "main name opts extra draw w = benchmark st s w2"
    using assms(1,2,3,4) by (auto simp: main_def)
  with benchmark_success [OF v assms(6)] show ?thesis by simp
qed

section \<open>The claims\<close>

subsection \<open>C1: loading twice\<close>

text \<open>
  Claim C1, as stated, fails. With a 1 GiB array (\<^verbatim>\<open>-s 1\<close>: 134217728 slots,
  4026531 indices) and no file, a first load whose draws are all 0 writes 4026531
  lines \<^verbatim>\<open>0\<close>. The second load reads them all back, finds
  \<open>endIdx - maxIdx = 134217728 > 10000000\<close>, prints the regeneration message and
  draws again: with draws that are all 1 it returns a different sequence.
\<close>

theorem second_load_regenerates:
  "readIndices world0 (const_draw 0) [] 134217728 4026531 = (zeros_world, True, replicate 4026531 0)
   \<and> readIndices zeros_world (const_draw 1) [] 134217728 4026531
        = (ones_world, True, replicate 4026531 1)
   \<and> replicate 4026531 (0 :: ulong) \<noteq> replicate 4026531 1"
proof -
  have u: "unat (4026531 :: ulong) = 4026531" by simp
  have w0: "cached_file world0 = None" "writable world0" by (simp_all add: world0_def)
  have "readIndices world0 (const_draw 0) [] 134217728 4026531
          = generateIndices world0 (const_draw 0) [] 134217728 4026531"
    by (rule readIndices_missing [OF w0(1)])
  also have "\<dots> = (emit generated_msg (world0\<lparr>cached_file :=
                   Some (print_indices (draws (const_draw 0) 134217728 4026531))\<rparr>),
                 True, [] @ draws (const_draw 0) 134217728 4026531)"
    by (rule generateIndices_writable [OF w0(2)])
  also have "\<dots> = (zeros_world, True, replicate 4026531 0)"
    by (simp add: draws_const u zeros_world_def emit_def world0_def)
  finally have a: "readIndices world0 (const_draw 0) [] 134217728 4026531
            = (zeros_world, True, replicate 4026531 0)" .
  have c: "cached_file zeros_world = Some (print_indices (replicate 4026531 0))"
    by (simp add: zeros_world_def world0_def)
  have n: "replicate 4026531 (0 :: ulong) \<noteq> []" by simp
  have st: "\<forall>x \<in> set (replicate 4026531 (0 :: ulong)).
              x < 2 ^ 63 \<and> unat x + 10000000 < unat (134217728 :: ulong) - 1"
    by simp
  have wz: "writable (emit regenerating_msg zeros_world)" by (simp add: zeros_world_def world0_def)
  have "readIndices zeros_world (const_draw 1) [] 134217728 4026531
          = generateIndices (emit regenerating_msg zeros_world) (const_draw 1) [] 134217728 4026531"
    by (rule stale_regenerates [OF c n st])
  also have "\<dots> = (emit generated_msg (emit regenerating_msg zeros_world\<lparr>cached_file :=
                   Some (print_indices (draws (const_draw 1) 134217728 4026531))\<rparr>),
                 True, [] @ draws (const_draw 1) 134217728 4026531)"
    by (rule generateIndices_writable [OF wz])
  also have "\<dots> = (ones_world, True, replicate 4026531 1)"
    by (simp add: draws_const u zeros_world_def ones_world_def emit_def world0_def)
  finally have b: "readIndices zeros_world (const_draw 1) [] 134217728 4026531
            = (ones_world, True, replicate 4026531 1)" .
  show ?thesis using a b by simp
qed

text \<open>
  Claim C1, amended. Let a first load succeed and return \<open>s\<close>, with a bound of
  at least 1 and at most \<open>2 ^ 63\<close> (indices are read back into a \<^verbatim>\<open>long\<close>) and
  draws within the distribution's bounds. If \<open>s\<close> passes the loader's own
  freshness test, the bound minus the maximum of \<open>s\<close> (0 for the empty sequence)
  being at most 10,000,000, then a second load with the same bound and count,
  whatever it would draw, returns \<open>s\<close> again, leaves the file as it is and
  neither announces nor performs a regeneration.
\<close>

theorem second_load_replays:
  assumes "readIndices w draw1 [] endIdx numIndices = (w1, True, s)"
    and "endIdx \<noteq> 0" and "endIdx \<le> 2 ^ 63"
    and "dist_in_range draw1 endIdx (unat numIndices)"
    and "endIdx - foldl max 0 s \<le> 10000000"
  shows "snd (readIndices w1 draw2 [] endIdx numIndices) = (True, s)
       \<and> cached_file (fst (readIndices w1 draw2 [] endIdx numIndices)) = cached_file w1
       \<and> regenerating_msg \<notin> set (new_events w1 (fst (readIndices w1 draw2 [] endIdx numIndices)))
       \<and> generated_msg \<notin> set (new_events w1 (fst (readIndices w1 draw2 [] endIdx numIndices)))"
proof -
  have fresh_case: ?thesis
    if g: "generateIndices w0 draw1 [] endIdx numIndices = (w1, True, s)" for w0
  proof -
    from g have wr: "writable w0" by (cases "writable w0") (auto simp: generateIndices_not_writable)
    from g have s: "s = draws draw1 endIdx numIndices"
      and f: "cached_file w1 = Some (print_indices s)"
      by (auto simp: generateIndices_writable [OF wr])
    have v: "\<forall>x \<in> set s. x < endIdx \<and> x < 2 ^ 63"
    proof (intro ballI conjI)
      fix x assume "x \<in> set s"
      then show lt: "x < endIdx" using draws_in_range [OF assms(2,4)] unfolding s by blast
      from lt assms(3) show "x < 2 ^ 63" by (rule order_less_le_trans)
    qed
    have l: "length s = unat numIndices" by (simp add: s draws_def)
    have "readIndices w1 draw2 [] endIdx numIndices = (w1, True, s)"
      by (rule reload_generated [OF f v l assms(5)])
    then show ?thesis by (simp add: new_events_def)
  qed
  show ?thesis
  proof (cases "cached_file w")
    case None
    with assms(1) show ?thesis by (intro fresh_case [of w]) (simp add: readIndices_missing)
  next
    case (Some content)
    obtain ix mx out where r: "read_loop endIdx numIndices content ([], 0, trace w) = (ix, mx, out)"
      by (cases "read_loop endIdx numIndices content ([], 0, trace w)") auto
    show ?thesis
    proof (cases "10000000 < endIdx - mx \<or> length ix \<noteq> unat numIndices")
      case True
      with assms(1) show ?thesis
        using readIndices_present [OF Some r, of draw1]
        by (intro fresh_case [of "emit regenerating_msg (w\<lparr>trace := out\<rparr>)"]) simp
    next
      case False
      with assms(1) have w1: "w1 = w\<lparr>trace := out\<rparr>" and s: "s = ix"
        using readIndices_present [OF Some r, of draw1] by simp_all
      from reload_accepted [OF Some r False, of draw2] obtain ex where
        "readIndices w1 draw2 [] endIdx numIndices = (w\<lparr>trace := out @ ex\<rparr>, True, ix)"
        "regenerating_msg \<notin> set ex" "generated_msg \<notin> set ex"
        unfolding w1 by blast
      then show ?thesis by (simp add: w1 s new_events_def)
    qed
  qed
qed

text \<open>
  The hypotheses of the amended C1 hold for a first load that draws 5, 999 and 0
  below the bound 1000; the second load returns them from the file.
\<close>

theorem second_load_replays_witness:
  "readIndices world0 (list_draw [5, 999, 0]) [] 1000 3 = (fresh_world, True, [5, 999, 0])
   \<and> (1000 :: ulong) \<noteq> 0 \<and> (1000 :: ulong) \<le> 2 ^ 63
   \<and> dist_in_range (list_draw [5, 999, 0]) 1000 (unat (3 :: ulong))
   \<and> (1000 :: ulong) - foldl max 0 [5, 999, 0] \<le> 10000000
   \<and> readIndices fresh_world (const_draw 7) [] 1000 3 = (fresh_world, True, [5, 999, 0])"
proof -
  have f: "readIndices world0 (list_draw [5, 999, 0]) [] 1000 3 = (fresh_world, True, [5, 999, 0])"
    by code_simp
  have e: "(1000 :: ulong) \<noteq> 0" "(1000 :: ulong) \<le> 2 ^ 63" by simp_all
  have "unat (3 :: ulong) = 3" by simp
  then have u: "unat (3 :: ulong) = Suc (Suc (Suc 0))" by (simp only: numeral_3_eq_3)
  have d: "dist_in_range (list_draw [5, 999, 0]) 1000 (unat (3 :: ulong))"
    unfolding dist_in_range_def u by (simp add: list_draw_def less_Suc_eq)
  have m: "(1000 :: ulong) - foldl max 0 [5, 999, 0] \<le> 10000000" by simp
  have s: "readIndices fresh_world (const_draw 7) [] 1000 3 = (fresh_world, True, [5, 999, 0])"
    by code_simp
  from second_load_replays [OF f e d m, of "const_draw 7"] s f e d m show ?thesis by simp
qed

subsection \<open>C2: a corrupt line\<close>

text \<open>
  Claim C2 at the input where the program does not do what the claim (and the
  comment above \<^verbatim>\<open>readIndices\<close>: "If it's missing or contains invalid data,
  generate a new one") says. The file holds the lines \<^verbatim>\<open>1\<close>, \<^verbatim>\<open>2\<close> and
  \<^verbatim>\<open>xyz\<close>; the bound is 10 and the count 2. The loop stops at the invalid
  third line with two indices in the vector, the count matches, and the two
  indices are returned without regeneration, the file untouched.
\<close>

theorem readIndices_accepts_corrupt_tail:
  "readIndices corrupt_tail_world (const_draw 7) [] 10 2 =
     (corrupt_tail_world\<lparr>trace := [Print (''invalid line: '' @ lines [''xyz''])]\<rparr>, True, [1, 2])"
  by code_simp

subsection \<open>C3: when the cache is accepted\<close>

text \<open>
  Claim C3, as stated, fails in its first part: the loop is not bounded by
  count. With count 2 and a file of three valid lines it reads three indices;
  the loop only stops once the vector holds more than count entries.
\<close>

theorem read_loop_reads_one_past_count:
  "fst (read_loop 10 2 (lines [''1'', ''2'', ''3'']) ([], 0, [])) = [1, 2, 3]
   \<and> \<not> length (fst (read_loop 10 2 (lines [''1'', ''2'', ''3'']) ([], 0, []))) \<le> unat (2 :: ulong)"
  by code_simp

text \<open>
  Claim C3, amended. For every persisted index file the read loop reads the
  file's lines in order and ends in one of three ways: once it has read
  count + 1 indices (nothing printed), at end of file with every line read
  (nothing printed), or at the first invalid line, with the indices of the lines
  before it and the invalid line printed. So it never holds more than count + 1
  indices, nor more than the file has bytes; the maximum it reports is the
  maximum of the indices read, 0 if there are none. The cache is accepted,
  without the regeneration message, if and only if the number of indices read
  equals count and the bound minus that maximum is at most 10,000,000; it is
  then returned as read. Otherwise the indices read are dropped and
  \<^verbatim>\<open>generateIndices\<close> runs on an empty vector. In particular a non-empty file
  whose lines are all valid, each index more than 10,000,000 below
  \<open>endIdx - 1\<close>, triggers regeneration.
\<close>

theorem readIndices_acceptance:
  assumes "cached_file w = Some content"
    and "read_loop endIdx numIndices content ([], 0, trace w) = (ix, mx, out)"
  shows "ix = map line_idx (take (Suc (unat numIndices)) (valid_lines endIdx content))
    \<and> (Suc (unat numIndices) \<le> length (valid_lines endIdx content) \<longrightarrow>
          length ix = Suc (unat numIndices) \<and> out = trace w)
    \<and> (length (valid_lines endIdx content) \<le> unat numIndices
          \<and> valid_lines endIdx content = chunks content \<longrightarrow>
          ix = map line_idx (chunks content) \<and> out = trace w)
    \<and> (length (valid_lines endIdx content) \<le> unat numIndices
          \<and> valid_lines endIdx content \<noteq> chunks content \<longrightarrow>
          ix = map line_idx (valid_lines endIdx content)
          \<and> invalid_line endIdx (chunks content ! length (valid_lines endIdx content))
          \<and> out = trace w @ [Print (''invalid line: '' @
                 c_str (chunks content ! length (valid_lines endIdx content)))])
    \<and> length ix \<le> Suc (unat numIndices) \<and> length ix \<le> length content
    \<and> mx = foldl max 0 ix
    \<and> (regenerating_msg \<notin> set (new_events w (fst (readIndices w draw [] endIdx numIndices)))
         \<longleftrightarrow> length ix = unat numIndices \<and> endIdx - mx \<le> 10000000)
    \<and> (length ix = unat numIndices \<and> endIdx - mx \<le> 10000000 \<longrightarrow>
          readIndices w draw [] endIdx numIndices = (w\<lparr>trace := out\<rparr>, True, ix))
    \<and> (\<not> (length ix = unat numIndices \<and> endIdx - mx \<le> 10000000) \<longrightarrow>
          readIndices w draw [] endIdx numIndices =
            generateIndices (emit regenerating_msg (w\<lparr>trace := out\<rparr>)) draw [] endIdx numIndices)
    \<and> (chunks content \<noteq> []
          \<and> (\<forall>buf \<in> set (chunks content). \<not> invalid_line endIdx buf
                \<and> unat (line_idx buf) + 10000000 < unat endIdx - 1) \<longrightarrow>
          regenerating_msg \<in> set (new_events w (fst (readIndices w draw [] endIdx numIndices))))"
proof -
  let ?good = "valid_lines endIdx content"
  let ?bufs = "chunks content"
  from read_loop_chunks [of "[]" numIndices endIdx content 0 "trace w"] assms(2)
  have ix: "ix = map line_idx (take (Suc (unat numIndices)) ?good)"
    and out: "out = trace w @ (if length ?good < Suc (unat numIndices) \<and> length ?good < length ?bufs
              then [Print (''invalid line: '' @ c_str (?bufs ! length ?good))] else [])"
    by simp_all
  have len: "length ?good \<le> length ?bufs"
    unfolding valid_lines_def by (rule length_takeWhile_le)
  have e1: "Suc (unat numIndices) \<le> length ?good \<longrightarrow> length ix = Suc (unat numIndices) \<and> out = trace w"
    using ix out by auto
  have e2: "length ?good \<le> unat numIndices \<and> ?good = ?bufs \<longrightarrow>
          ix = map line_idx ?bufs \<and> out = trace w"
    using ix out by auto
  have e3: "ix = map line_idx ?good \<and> invalid_line endIdx (?bufs ! length ?good)
          \<and> out = trace w @ [Print (''invalid line: '' @ c_str (?bufs ! length ?good))]"
    if "length ?good \<le> unat numIndices" "?good \<noteq> ?bufs"
  proof -
    have split: "?good @ dropWhile (\<lambda>buf. \<not> invalid_line endIdx buf) ?bufs = ?bufs"
      unfolding valid_lines_def by (rule takeWhile_dropWhile_id)
    have "length ?good \<noteq> length ?bufs"
    proof
      assume "length ?good = length ?bufs"
      with split have "dropWhile (\<lambda>buf. \<not> invalid_line endIdx buf) ?bufs = []"
        by (metis append_eq_conv_conj drop_all order_refl)
      with split that(2) show False by simp
    qed
    with len have lt: "length ?good < length ?bufs" by simp
    then have "\<not> \<not> invalid_line endIdx (?bufs ! length ?good)"
      unfolding valid_lines_def by (rule nth_length_takeWhile)
    with that(1) lt ix out show ?thesis by simp
  qed
  from read_loop_result [OF assms(2)] obtain new where
    new: "ix = [] @ new" "mx = foldl max 0 new" "length new \<le> length content"
      "length ([] :: ulong list) \<le> unat numIndices \<longrightarrow> length ix \<le> Suc (unat numIndices)"
    by blast
  then have a: "length ix \<le> Suc (unat numIndices)" "length ix \<le> length content"
      "mx = foldl max 0 ix"
    by simp_all
  note b = accept_iff [OF assms, of draw]
  have c: "length ix = unat numIndices \<and> endIdx - mx \<le> 10000000 \<longrightarrow>
          readIndices w draw [] endIdx numIndices = (w\<lparr>trace := out\<rparr>, True, ix)"
    using readIndices_present [OF assms, of draw] by auto
  have d: "\<not> (length ix = unat numIndices \<and> endIdx - mx \<le> 10000000) \<longrightarrow>
          readIndices w draw [] endIdx numIndices =
            generateIndices (emit regenerating_msg (w\<lparr>trace := out\<rparr>)) draw [] endIdx numIndices"
    using readIndices_present [OF assms, of draw] by auto
  have e: "regenerating_msg \<in> set (new_events w (fst (readIndices w draw [] endIdx numIndices)))"
    if "?bufs \<noteq> []"
      "\<forall>buf \<in> set ?bufs. \<not> invalid_line endIdx buf
           \<and> unat (line_idx buf) + 10000000 < unat endIdx - 1"
  proof -
    have "readIndices w draw [] endIdx numIndices =
            generateIndices (emit regenerating_msg w) draw [] endIdx numIndices"
      by (rule stale_lines_regenerate [OF assms(1) that])
    moreover have "\<exists>ev. trace (fst (generateIndices (emit regenerating_msg w) draw [] endIdx numIndices))
        = trace w @ [regenerating_msg, ev]"
      by (cases "writable w") (simp_all add: generateIndices_writable generateIndices_not_writable)
    ultimately obtain ev where "trace (fst (readIndices w draw [] endIdx numIndices))
        = trace w @ [regenerating_msg, ev]" by auto
    then have "new_events w (fst (readIndices w draw [] endIdx numIndices)) = [regenerating_msg, ev]"
      by (rule new_events_app)
    then show ?thesis by simp
  qed
  from ix e1 e2 e3 a b c d e show ?thesis by blast
qed

text \<open>
  The amended C3 at the three ways the loop ends, with count 2 and bound 10: a
  file of two lines is read to its end and accepted; a file whose second line is
  \<^verbatim>\<open>xyz\<close> is read up to that line; a file of three lines is read to count + 1
  indices and regenerated. And at a stale file: the single index 5 under the
  bound 20,000,000.
\<close>

theorem readIndices_acceptance_witness:
  "cached_file good_world = Some (lines [''1'', ''2''])
   \<and> read_loop 10 2 (lines [''1'', ''2'']) ([], 0, trace good_world) = ([1, 2], 2, [])
   \<and> chunks (lines [''1'', ''2'']) = [lines [''1''], lines [''2'']]
   \<and> valid_lines 10 (lines [''1'', ''2'']) = chunks (lines [''1'', ''2''])
   \<and> readIndices good_world (const_draw 7) [] 10 2 = (good_world, True, [1, 2])
   \<and> cached_file short_world = Some (lines [''1'', ''xyz''])
   \<and> read_loop 10 2 (lines [''1'', ''xyz'']) ([], 0, trace short_world)
        = ([1], 1, [Print (''invalid line: '' @ lines [''xyz''])])
   \<and> chunks (lines [''1'', ''xyz'']) = [lines [''1''], lines [''xyz'']]
   \<and> valid_lines 10 (lines [''1'', ''xyz'']) = [lines [''1'']]
   \<and> invalid_line 10 (lines [''xyz''])
   \<and> cached_file long_world = Some (lines [''1'', ''2'', ''3''])
   \<and> read_loop 10 2 (lines [''1'', ''2'', ''3'']) ([], 0, trace long_world) = ([1, 2, 3], 3, [])
   \<and> valid_lines 10 (lines [''1'', ''2'', ''3'']) = [lines [''1''], lines [''2''], lines [''3'']]
   \<and> regenerating_msg \<in> set (new_events long_world
         (fst (readIndices long_world (const_draw 7) [] 10 2)))
   \<and> cached_file stale_world = Some (print_indices [5])
   \<and> read_loop 20000000 1 (print_indices [5]) ([], 0, trace stale_world) = ([5], 5, [])
   \<and> chunks (print_indices [5]) = [lines [''5'']]
   \<and> regenerating_msg \<in> set (new_events stale_world
         (fst (readIndices stale_world (const_draw 7) [] 20000000 1)))"
proof -
  have g1: "cached_file good_world = Some (lines [''1'', ''2''])" by (simp add: good_world_def world0_def)
  have g2: "read_loop 10 2 (lines [''1'', ''2'']) ([], 0, trace good_world) = ([1, 2], 2, [])"
    by code_simp
  have g3: "good_world\<lparr>trace := []\<rparr> = good_world" by (simp add: good_world_def world0_def)
  have g4: "length [1, 2 :: ulong] = unat (2 :: ulong) \<and> (10 :: ulong) - 2 \<le> 10000000" by simp
  have g5: "chunks (lines [''1'', ''2'']) = [lines [''1''], lines [''2'']]" by code_simp
  have g6: "valid_lines 10 (lines [''1'', ''2'']) = chunks (lines [''1'', ''2''])" by code_simp
  from readIndices_acceptance [OF g1 g2, of "const_draw 7"] g3 g4
  have g: "readIndices good_world (const_draw 7) [] 10 2 = (good_world, True, [1, 2])" by simp
  have b1: "cached_file short_world = Some (lines [''1'', ''xyz''])"
    by (simp add: short_world_def world0_def)
  have b2: "read_loop 10 2 (lines [''1'', ''xyz'']) ([], 0, trace short_world)
        = ([1], 1, [Print (''invalid line: '' @ lines [''xyz''])])" by code_simp
  have b3: "chunks (lines [''1'', ''xyz'']) = [lines [''1''], lines [''xyz'']]" by code_simp
  have b4: "valid_lines 10 (lines [''1'', ''xyz'']) = [lines [''1'']]" by code_simp
  have b5: "length (valid_lines 10 (lines [''1'', ''xyz''])) \<le> unat (2 :: ulong)
      \<and> valid_lines 10 (lines [''1'', ''xyz'']) \<noteq> chunks (lines [''1'', ''xyz''])"
    by (simp add: b3 b4)
  from readIndices_acceptance [OF b1 b2, of "const_draw 7"] b5
  have "invalid_line 10 (chunks (lines [''1'', ''xyz'']) ! length (valid_lines 10 (lines [''1'', ''xyz''])))"
    by blast
  then have b: "invalid_line 10 (lines [''xyz''])" by (simp add: b3 b4)
  have l1: "cached_file long_world = Some (lines [''1'', ''2'', ''3''])"
    by (simp add: long_world_def world0_def)
  have l2: "read_loop 10 2 (lines [''1'', ''2'', ''3'']) ([], 0, trace long_world) = ([1, 2, 3], 3, [])"
    by code_simp
  have l3: "valid_lines 10 (lines [''1'', ''2'', ''3'']) = [lines [''1''], lines [''2''], lines [''3'']]"
    by code_simp
  have l4: "\<not> (length [1, 2, 3 :: ulong] = unat (2 :: ulong) \<and> (10 :: ulong) - 3 \<le> 10000000)" by simp
  from readIndices_acceptance [OF l1 l2, of "const_draw 7"] l4
  have l: "regenerating_msg \<in> set (new_events long_world
         (fst (readIndices long_world (const_draw 7) [] 10 2)))" by blast
  have s1: "cached_file stale_world = Some (print_indices [5])" by (simp add: stale_world_def world0_def)
  have s2: "read_loop 20000000 1 (print_indices [5]) ([], 0, trace stale_world) = ([5], 5, [])"
    by code_simp
  have s3: "chunks (print_indices [5]) = [lines [''5'']]" by code_simp
  have s4: "lines [''5''] = fprintf_lu 5" by code_simp
  have s5: "chunks (print_indices [5]) \<noteq> []
      \<and> (\<forall>buf \<in> set (chunks (print_indices [5])). \<not> invalid_line 20000000 buf
            \<and> unat (line_idx buf) + 10000000 < unat (20000000 :: ulong) - 1)"
    by (simp add: s3 s4 valid_fprintf_lu line_idx_fprintf_lu)
  from readIndices_acceptance [OF s1 s2, of "const_draw 7"] s5
  have s: "regenerating_msg \<in> set (new_events stale_world
         (fst (readIndices stale_world (const_draw 7) [] 20000000 1)))" by blast
  from g1 g2 g5 g6 g b1 b2 b3 b4 b l1 l2 l3 l s1 s2 s3 s show ?thesis by blast
qed

subsection \<open>C4: releasing the mapping\<close>

text \<open>
  Claim C4 at the abort path it names. With \<^verbatim>\<open>-s 1 -m\<close>, transparent huge
  pages enabled, no index file, a mapping that succeeds and an advice that
  fails, \<^verbatim>\<open>main\<close> maps 1 GiB, calls \<^verbatim>\<open>madvise\<close>, prints the failure and
  returns 1: the trace holds the \<^verbatim>\<open>mmap\<close> and no \<^verbatim>\<open>munmap\<close>. (On normal
  completion \<^verbatim>\<open>munmap\<close> is the last event, once: lemmas \<open>benchmark_success\<close>
  and \<open>main_completes\<close>.)
\<close>

theorem madvise_failure_leaks_mapping:
  "main ''bench'' [OptS 1 NUL, OptM] False (const_draw 0) madvise_fails_world
     = (leaked_world, Exit 1)
   \<and> Mmap 1073741824 False \<in> set (trace leaked_world)
   \<and> Munmap \<notin> set (trace leaked_world)"
proof -
  have e: "thp_enabled madvise_fails_world"
    by (simp add: thp_enabled_def madvise_fails_world_def world0_def getline_def newline_def)
  have g: "getopt_loop ''bench'' [OptS 1 NUL, OptM] initial_locals madvise_fails_world
     = Inr (initial_locals\<lparr>st_arraySize := 1073741824, st_endIdx := 134217728, st_thp := True\<rparr>,
            madvise_fails_world)"
    using e by simp
  let ?w1 = "emit (Print ''Getting the indices'') madvise_fails_world"
  have c: "cached_file ?w1 = None" "writable ?w1"
    by (simp_all add: madvise_fails_world_def world0_def)
  have u: "unat (4026531 :: ulong) = 4026531" by simp
  have "readIndices ?w1 (const_draw 0) [] 134217728 4026531
          = generateIndices ?w1 (const_draw 0) [] 134217728 4026531"
    by (rule readIndices_missing [OF c(1)])
  also have "\<dots> = (emit generated_msg (?w1\<lparr>cached_file :=
                   Some (print_indices (draws (const_draw 0) 134217728 4026531))\<rparr>),
                 True, [] @ draws (const_draw 0) 134217728 4026531)"
    by (rule generateIndices_writable [OF c(2)])
  finally have r: "readIndices ?w1 (const_draw 0) [] 134217728 4026531
      = (emit generated_msg (?w1\<lparr>cached_file := Some (print_indices (replicate 4026531 0))\<rparr>),
         True, replicate 4026531 0)"
    by (simp add: draws_const u)
  have "main ''bench'' [OptS 1 NUL, OptM] False (const_draw 0) madvise_fails_world
     = (leaked_world, Exit 1)"
    unfolding main_def g
    by (simp add: initial_locals_def numIndices_of_1GiB r benchmark_def)
      (simp add: leaked_world_def madvise_fails_world_def world0_def emit_def)
  then show ?thesis by (simp add: leaked_world_def generated_msg_def)
qed

subsection \<open>C5: a freshly generated index set\<close>

text \<open>
  Claim C5. When the file can be opened for writing, the bound is at least 1 and
  the distribution keeps its promise, \<^verbatim>\<open>generateIndices\<close> on an empty vector
  succeeds; the vector then holds exactly \<open>numIndices\<close> elements, each below
  \<open>endIdx\<close>, namely the draws in the order they were made; and the file holds
  exactly these values, one decimal number per line in the same order, whatever it
  held before.
\<close>

theorem generateIndices_fresh:
  assumes "writable w" and "endIdx \<noteq> 0" and "dist_in_range draw endIdx (unat numIndices)"
  shows "case generateIndices w draw [] endIdx numIndices of
           (w', ok, s) \<Rightarrow>
             ok \<and> length s = unat numIndices \<and> (\<forall>x \<in> set s. x < endIdx)
             \<and> s = map (draw 0 (endIdx - 1)) [0..<unat numIndices]
             \<and> cached_file w' = Some (concat (map (\<lambda>x. dec (unat x) @ [newline]) s))"
proof -
  let ?s = "draws draw endIdx numIndices"
  have "length ?s = unat numIndices" by (simp add: draws_def)
  moreover have "\<forall>x \<in> set ?s. x < endIdx"
    using draws_in_range [OF assms(2,3)] by blast
  moreover have "print_indices ?s = concat (map (\<lambda>x. dec (unat x) @ [newline]) ?s)"
    by (simp add: print_indices_def fprintf_lu_def [abs_def])
  ultimately show ?thesis
    using assms(1) by (simp add: generateIndices_writable) (simp add: draws_def)
qed

text \<open>
  The hypotheses of C5 hold for three draws below 1000 over a stale file.
\<close>

theorem generateIndices_fresh_witness:
  "writable (world0\<lparr>cached_file := Some ''stale''\<rparr>) \<and> (1000 :: ulong) \<noteq> 0
   \<and> dist_in_range (list_draw [5, 999, 0]) 1000 (unat (3 :: ulong))
   \<and> snd (generateIndices (world0\<lparr>cached_file := Some ''stale''\<rparr>) (list_draw [5, 999, 0]) [] 1000 3)
       = (True, [5, 999, 0])
   \<and> cached_file (fst (generateIndices (world0\<lparr>cached_file := Some ''stale''\<rparr>)
         (list_draw [5, 999, 0]) [] 1000 3)) = Some (lines [''5'', ''999'', ''0''])"
proof -
  have w: "writable (world0\<lparr>cached_file := Some ''stale''\<rparr>)" by (simp add: world0_def)
  have "unat (3 :: ulong) = 3" by simp
  then have u: "unat (3 :: ulong) = Suc (Suc (Suc 0))" by (simp only: numeral_3_eq_3)
  have d: "dist_in_range (list_draw [5, 999, 0]) 1000 (unat (3 :: ulong))"
    unfolding dist_in_range_def u by (simp add: list_draw_def less_Suc_eq)
  have e: "(1000 :: ulong) \<noteq> 0" by simp
  have m: "map (list_draw [5, 999, 0] 0 (1000 - 1)) [0..<unat (3 :: ulong)] = [5, 999, 0]"
    unfolding u by (simp add: list_draw_def upt_rec)
  have p: "concat (map (\<lambda>x. dec (unat x) @ [newline]) [5, 999, 0 :: ulong]) = lines [''5'', ''999'', ''0'']"
    by (simp add: lines_def dec.simps digit_char_def)
  obtain w' ok s where g: "generateIndices (world0\<lparr>cached_file := Some ''stale''\<rparr>)
      (list_draw [5, 999, 0]) [] 1000 3 = (w', ok, s)"
    by (cases "generateIndices (world0\<lparr>cached_file := Some ''stale''\<rparr>)
      (list_draw [5, 999, 0]) [] 1000 3") auto
  from generateIndices_fresh [OF w e d] g m
  have s: "ok" "s = [5, 999, 0]" by simp_all
  from generateIndices_fresh [OF w e d] g s p
  have "cached_file w' = Some (lines [''5'', ''999'', ''0''])" by simp
  with w d g s show ?thesis by simp
qed

subsection \<open>C6: the initialization phase\<close>

text \<open>
  Claim C6. The initialization loop writes the slots \<open>0, 1, ..., endIdx - 1\<close> in
  this order, each once: the list of writes is strictly increasing and covers
  every slot. Afterwards slot \<open>i\<close> holds the double product of \<^verbatim>\<open>1e-9\<close> and
  \<open>i mod 79\<close>, and nothing outside the array has changed. Slot 5, when the array
  has one, holds the double \<^verbatim>\<open>5e-9\<close>.
\<close>

theorem init_loop_fills_array:
  "snd (init_loop endIdx 0 (array0, [])) = map of_nat [0..<unat endIdx]
   \<and> sorted_wrt (<) (snd (init_loop endIdx 0 (array0, [])))
   \<and> set (snd (init_loop endIdx 0 (array0, []))) = {i. i < endIdx}
   \<and> (\<forall>i. i < endIdx \<longrightarrow>
         fst (init_loop endIdx 0 (array0, [])) i = fmul c_1e_9 (double_of_ulong (i mod 79)))
   \<and> (\<forall>i. \<not> i < endIdx \<longrightarrow> fst (init_loop endIdx 0 (array0, [])) i = array0 i)
   \<and> (5 < endIdx \<longrightarrow> fst (init_loop endIdx 0 (array0, [])) 5 = c_5e_9)"
proof -
  have n: "unat endIdx < 2 ^ 64" using unsigned_less [of endIdx, where ?'a = nat] by simp
  have "double_of_ulong (5 mod 79) = b64_round 5" by (simp add: double_of_ulong_def)
  then show ?thesis
    using of_nat_upt_sorted [OF n] of_nat_upt_set [of endIdx]
    by (simp add: init_loop_eq five_e_9)
qed

text \<open>
  C6 for an array of 1000 doubles: slot 5 holds \<^verbatim>\<open>5e-9\<close>, 1000 slots are
  written and index 1000 is outside.
\<close>

theorem init_loop_fills_array_witness:
  "(5 :: ulong) < 1000
   \<and> fst (init_loop 1000 0 (\<lambda>i. 0, [])) 5 = fmul c_1e_9 (double_of_ulong (5 mod 79))
   \<and> fst (init_loop 1000 0 (\<lambda>i. 0, [])) 5 = c_5e_9
   \<and> \<not> (1000 :: ulong) < 1000 \<and> fst (init_loop 1000 0 (\<lambda>i. 0, [])) 1000 = 0
   \<and> length (snd (init_loop 1000 0 (\<lambda>i. 0, []))) = 1000"
proof -
  have a: "(5 :: ulong) < 1000" "\<not> (1000 :: ulong) < 1000" by simp_all
  from init_loop_fills_array [of 1000 "\<lambda>i. 0"] a
  have "fst (init_loop 1000 0 (\<lambda>i. 0, [])) 5 = fmul c_1e_9 (double_of_ulong (5 mod 79))"
    "fst (init_loop 1000 0 (\<lambda>i. 0, [])) 5 = c_5e_9"
    "fst (init_loop 1000 0 (\<lambda>i. 0, [])) 1000 = 0"
    "snd (init_loop 1000 0 (\<lambda>i. 0, [])) = map of_nat [0..<unat (1000 :: ulong)]"
    by blast+
  then show ?thesis by simp
qed

subsection \<open>C7: the access phase\<close>

text \<open>
  Claim C7. When every index is inside the array, the access loop returns the
  sum of the array's values at the indices, added from left to right in the
  order of the index set, starting from 0. A run that is not aborted ends with
  status 0 and prints exactly one result, the left-to-right sum of
  \<^verbatim>\<open>1e-9 * (u % 79)\<close> over the indices \<open>u\<close>; any second run with the same index set
  and the same number of slots prints the same result, whatever its page mode
  (\<open>st_hugetlb\<close>, \<open>st_thp\<close>) and its world.
\<close>

theorem access_sum_independent_of_page_mode:
  assumes "\<forall>u \<in> set indices. u < st_endIdx st" and "run_ok st w"
  shows "access_loop (fst (init_loop (st_endIdx st) 0 (\<lambda>i. 0, []))) (st_endIdx st) indices 0
           = Some (foldl fadd 0 (map (fst (init_loop (st_endIdx st) 0 (\<lambda>i. 0, []))) indices))
     \<and> snd (benchmark st indices w) = Exit 0
     \<and> filter is_result (new_events w (fst (benchmark st indices w)))
         = [PrintResult (spec_access_sum indices)]
     \<and> (\<forall>st2 w2. st_endIdx st2 = st_endIdx st \<and> run_ok st2 w2 \<longrightarrow>
           filter is_result (new_events w2 (fst (benchmark st2 indices w2)))
             = filter is_result (new_events w (fst (benchmark st indices w))))"
proof -
  have r: "filter is_result (new_events w' (fst (benchmark st' indices w')))
             = [PrintResult (spec_access_sum indices)]"
    if "\<forall>u \<in> set indices. u < st_endIdx st'" "run_ok st' w'" for st' w'
    using benchmark_success [OF that] by simp
  have "filter is_result (new_events w2 (fst (benchmark st2 indices w2)))
             = filter is_result (new_events w (fst (benchmark st indices w)))"
    if "st_endIdx st2 = st_endIdx st" "run_ok st2 w2" for st2 w2
    using r [OF assms] r [of st2 w2] assms(1) that by simp
  then show ?thesis
    using access_loop_sum [OF assms(1)] benchmark_success [OF assms] r [OF assms] by blast
qed

text \<open>
  C7 for three indices in an array of 1000 slots, under the default page mode,
  transparent huge pages and hugetlbfs.
\<close>

theorem access_sum_independent_of_page_mode_witness:
  "5 < st_endIdx small_run \<and> 80 < st_endIdx small_run \<and> run_ok small_run world0
   \<and> run_ok (small_run\<lparr>st_thp := True\<rparr>) world0
   \<and> run_ok (small_run\<lparr>st_hugetlb := True\<rparr>) world0
   \<and> filter is_result (new_events world0 (fst (benchmark small_run [5, 80, 5] world0)))
       = [PrintResult (fadd (fadd (fadd 0 (slot_value 5)) (slot_value 80)) (slot_value 5))]
   \<and> filter is_result (new_events world0
         (fst (benchmark (small_run\<lparr>st_thp := True\<rparr>) [5, 80, 5] world0)))
       = filter is_result (new_events world0 (fst (benchmark small_run [5, 80, 5] world0)))
   \<and> filter is_result (new_events world0
         (fst (benchmark (small_run\<lparr>st_hugetlb := True\<rparr>) [5, 80, 5] world0)))
       = filter is_result (new_events world0 (fst (benchmark small_run [5, 80, 5] world0)))"
proof -
  have v: "\<forall>u \<in> set [5, 80, 5]. u < st_endIdx small_run" by (simp add: small_run_def)
  have o: "run_ok small_run world0" "run_ok (small_run\<lparr>st_thp := True\<rparr>) world0"
    "run_ok (small_run\<lparr>st_hugetlb := True\<rparr>) world0"
    by (simp_all add: run_ok_def small_run_def world0_def)
  have e: "st_endIdx (small_run\<lparr>st_thp := True\<rparr>) = st_endIdx small_run"
    "st_endIdx (small_run\<lparr>st_hugetlb := True\<rparr>) = st_endIdx small_run" by simp_all
  note t = access_sum_independent_of_page_mode [OF v o(1)]
  from t have "filter is_result (new_events world0 (fst (benchmark small_run [5, 80, 5] world0)))
       = [PrintResult (fadd (fadd (fadd 0 (slot_value 5)) (slot_value 80)) (slot_value 5))]"
    by (simp add: spec_access_sum_def)
  moreover from t e(1) o(2)
  have "filter is_result (new_events world0
         (fst (benchmark (small_run\<lparr>st_thp := True\<rparr>) [5, 80, 5] world0)))
       = filter is_result (new_events world0 (fst (benchmark small_run [5, 80, 5] world0)))"
    by blast
  moreover from t e(2) o(3)
  have "filter is_result (new_events world0
         (fst (benchmark (small_run\<lparr>st_hugetlb := True\<rparr>) [5, 80, 5] world0)))
       = filter is_result (new_events world0 (fst (benchmark small_run [5, 80, 5] world0)))"
    by blast
  moreover have "5 < st_endIdx small_run" "80 < st_endIdx small_run"
    by (simp_all add: small_run_def)
  ultimately show ?thesis using o by simp
qed

subsection \<open>C8: three percent\<close>

text \<open>
  Claim C8. Whatever the options, when the option loop leaves the locals, the
  number of slots is the array size divided by 8 (\<^verbatim>\<open>sizeof(double)\<close>) and the
  number of indices that \<^verbatim>\<open>main\<close> computes in double arithmetic is the floor of
  the exact rational 3 percent of the number of slots.
\<close>

theorem numIndices_three_percent:
  assumes "getopt_loop name opts initial_locals w = Inr (st, w')"
  shows "st_endIdx st = st_arraySize st div 8
       \<and> uint (numIndices_of (st_endIdx st))
           = \<lfloor>(of_int (uint (st_endIdx st)) :: rat) * 3 / 100\<rfloor>"
proof -
  from getopt_loop_sized [OF assms sized_initial] have s: "sized st" .
  then have "st_endIdx st = st_arraySize st div 8" by (auto simp: sized_def)
  moreover have "\<lfloor>(of_int (uint (st_endIdx st)) :: rat) * 3 / 100\<rfloor> = uint (st_endIdx st) * 3 div 100"
    using floor_divide_of_int_eq [of "uint (st_endIdx st) * 3" 100, where ?'a = rat] by simp
  ultimately show ?thesis using numIndices_of_sized [OF s] by simp
qed

text \<open>
  C8 for \<^verbatim>\<open>-s 1\<close>: 134217728 slots, 4026531 indices.
\<close>

theorem numIndices_three_percent_witness:
  "getopt_loop ''bench'' [OptS 1 NUL] initial_locals world0
     = Inr (initial_locals\<lparr>st_arraySize := 1073741824, st_endIdx := 134217728\<rparr>, world0)
   \<and> numIndices_of 134217728 = 4026531"
proof -
  have g: "getopt_loop ''bench'' [OptS 1 NUL] initial_locals world0
     = Inr (initial_locals\<lparr>st_arraySize := 1073741824, st_endIdx := 134217728\<rparr>, world0)"
    by simp
  have f: "\<lfloor>(100663296 / 25 :: rat)\<rfloor> = 4026531"
    using floor_divide_of_int_eq [of 100663296 25, where ?'a = rat] by simp
  have "uint (numIndices_of 134217728) = 4026531"
    using numIndices_three_percent [OF g] f by simp
  then have "word_of_int (uint (numIndices_of 134217728)) = (word_of_int 4026531 :: ulong)" by simp
  then have "numIndices_of 134217728 = 4026531" by simp
  with g show ?thesis by simp
qed

subsection \<open>C9: the state file of transparent huge pages\<close>

text \<open>
  Claim C9. Let the state file be impossible to open, or empty, and let
  \<^verbatim>\<open>-m\<close> be among the options. Then \<^verbatim>\<open>main\<close> ends with status 1 without any
  \<^verbatim>\<open>mmap\<close>, and it does exactly what it does when the file says
  \<^verbatim>\<open>[never]\<close>. When the options before the first \<^verbatim>\<open>-m\<close> let the option
  loop reach it, all the program does is print the explanatory message.
\<close>

theorem thp_unreadable_fails_closed:
  assumes "thp_unreadable w" and "OptM \<in> set opts"
  shows "snd (main name opts extra draw w) = Exit 1
     \<and> (\<forall>sz h. Mmap sz h \<notin> set (new_events w (fst (main name opts extra draw w))))
     \<and> main name opts extra draw (w\<lparr>thp_file := Some never_line\<rparr>)
         = ((fst (main name opts extra draw w))\<lparr>thp_file := Some never_line\<rparr>,
            snd (main name opts extra draw w))
     \<and> (\<forall>pre post. opts = pre @ OptM # post \<and> (\<forall>opt \<in> set pre. passes opt) \<longrightarrow>
           main name opts extra draw w = (emit thp_disabled_msg w, Exit 1))"
proof -
  let ?w2 = "w\<lparr>thp_file := Some never_line\<rparr>"
  note d = thp_unreadable_disabled [OF assms(1)]
  have reach: "main name opts extra draw w = (emit thp_disabled_msg w, Exit 1)"
    if "opts = pre @ OptM # post" "\<forall>opt \<in> set pre. passes opt" for pre post
    using getopt_loop_reaches_m [OF d that(2), of name post initial_locals] that(1)
    by (simp add: main_def)
  from getopt_loop_m [OF d never_disabled [of w] assms(2), of name initial_locals]
  show ?thesis
  proof
    assume a: "getopt_loop name opts initial_locals w = Inl (emit thp_disabled_msg w, Exit 1)
      \<and> getopt_loop name opts initial_locals ?w2 = Inl (emit thp_disabled_msg ?w2, Exit 1)"
    then have "main name opts extra draw w = (emit thp_disabled_msg w, Exit 1)"
      "main name opts extra draw ?w2 = (emit thp_disabled_msg ?w2, Exit 1)"
      by (simp_all add: main_def)
    then show ?thesis using reach
      by (simp add: new_events_def emit_def thp_disabled_msg_def)
  next
    assume a: "getopt_loop name opts initial_locals w = Inl (usage name w)
      \<and> getopt_loop name opts initial_locals ?w2 = Inl (usage name ?w2)"
    then have m: "main name opts extra draw w = usage name w"
      "main name opts extra draw ?w2 = usage name ?w2"
      by (simp_all add: main_def)
    obtain ls where "trace (fst (usage name w)) = trace w @ map Print ls"
      using usage_trace by blast
    then have "new_events w (fst (usage name w)) = map Print ls" by (rule new_events_app)
    then have "\<forall>sz h. Mmap sz h \<notin> set (new_events w (fst (usage name w)))" by auto
    then show ?thesis using reach m
      by (simp add: usage_thp_file usage_exit)
  qed
qed

text \<open>
  C9 for \<^verbatim>\<open>-t -m\<close>, with a state file that cannot be opened and with an
  empty one.
\<close>

theorem thp_unreadable_fails_closed_witness:
  "thp_unreadable world0 \<and> thp_unreadable (world0\<lparr>thp_file := Some []\<rparr>)
   \<and> OptM \<in> set [OptT, OptM]
   \<and> main ''bench'' [OptT, OptM] False (const_draw 0) world0
        = (emit thp_disabled_msg world0, Exit 1)
   \<and> main ''bench'' [OptT, OptM] False (const_draw 0) (world0\<lparr>thp_file := Some []\<rparr>)
        = (emit thp_disabled_msg (world0\<lparr>thp_file := Some []\<rparr>), Exit 1)"
proof -
  have u: "thp_unreadable world0" "thp_unreadable (world0\<lparr>thp_file := Some []\<rparr>)"
    by (simp_all add: thp_unreadable_def world0_def getline_def)
  have m: "OptM \<in> set [OptT, OptM]" by simp
  have p: "[OptT, OptM] = [OptT] @ OptM # [] \<and> (\<forall>opt \<in> set [OptT]. passes opt)"
    by (simp add: passes_def)
  from thp_unreadable_fails_closed [OF u(1) m, of "''bench''" False "const_draw 0"] p
  have "main ''bench'' [OptT, OptM] False (const_draw 0) world0
        = (emit thp_disabled_msg world0, Exit 1)" by blast
  moreover from thp_unreadable_fails_closed [OF u(2) m, of "''bench''" False "const_draw 0"] p
  have "main ''bench'' [OptT, OptM] False (const_draw 0) (world0\<lparr>thp_file := Some []\<rparr>)
        = (emit thp_disabled_msg (world0\<lparr>thp_file := Some []\<rparr>), Exit 1)" by blast
  ultimately show ?thesis using u m by simp
qed

subsection \<open>C10: never a mixture\<close>

text \<open>
  Claim C10. Let \<^verbatim>\<open>readIndices\<close> succeed, on a vector that is empty when
  there is no file to read (as it is in \<^verbatim>\<open>main\<close>). Then the sequence returned
  is either what the read loop left, the file being untouched and nothing
  generated, or exactly the freshly drawn indices, which are also what the file
  now holds: whatever had been read, or was in the vector before, is gone.
\<close>

theorem readIndices_no_mixture:
  assumes "readIndices w draw ix0 endIdx numIndices = (w', True, s)"
    and "cached_file w = None \<longrightarrow> ix0 = []"
  shows "(\<exists>content. cached_file w = Some content
            \<and> s = fst (read_loop endIdx numIndices content (ix0, 0, trace w))
            \<and> cached_file w' = cached_file w
            \<and> generated_msg \<notin> set (new_events w w'))
       \<or> (s = map (draw 0 (endIdx - 1)) [0..<unat numIndices]
            \<and> cached_file w' = Some (print_indices s)
            \<and> generated_msg \<in> set (new_events w w'))"
proof (cases "cached_file w")
  case None
  with assms(2) have ix0: "ix0 = []" by simp
  from assms(1) None have g: "generateIndices w draw [] endIdx numIndices = (w', True, s)"
    by (simp add: readIndices_missing ix0)
  then have wr: "writable w" by (cases "writable w") (auto simp: generateIndices_not_writable)
  from g have "s = draws draw endIdx numIndices"
    and "w' = emit generated_msg (w\<lparr>cached_file := Some (print_indices (draws draw endIdx numIndices))\<rparr>)"
    by (auto simp: generateIndices_writable [OF wr])
  then show ?thesis by (simp add: draws_def new_events_def)
next
  case (Some content)
  obtain ix mx out where r: "read_loop endIdx numIndices content (ix0, 0, trace w) = (ix, mx, out)"
    by (cases "read_loop endIdx numIndices content (ix0, 0, trace w)") auto
  from read_loop_trace [OF r] obtain ex where
    ex: "out = trace w @ ex" "regenerating_msg \<notin> set ex" "generated_msg \<notin> set ex" by blast
  show ?thesis
  proof (cases "10000000 < endIdx - mx \<or> length ix \<noteq> unat numIndices")
    case True
    let ?w = "emit regenerating_msg (w\<lparr>trace := out\<rparr>)"
    from assms(1) True have g: "generateIndices ?w draw [] endIdx numIndices = (w', True, s)"
      using readIndices_present [OF Some r, of draw] by simp
    then have wr: "writable ?w" by (cases "writable ?w") (auto simp: generateIndices_not_writable)
    from g have "s = draws draw endIdx numIndices"
      and "w' = emit generated_msg (?w\<lparr>cached_file := Some (print_indices (draws draw endIdx numIndices))\<rparr>)"
      by (auto simp: generateIndices_writable [OF wr])
    then show ?thesis using ex(1) by (simp add: draws_def new_events_def)
  next
    case False
    with assms(1) have "w' = w\<lparr>trace := out\<rparr>" "s = ix"
      using readIndices_present [OF Some r, of draw] by simp_all
    with Some r ex show ?thesis by (simp add: new_events_def)
  qed
qed

text \<open>
  C10 for a file with one valid and one invalid line and count 2: the index
  read, 1, is dropped and the two draws are returned.
\<close>

theorem readIndices_no_mixture_witness:
  "readIndices short_world (const_draw 7) [] 10 2
     = (short_world\<lparr>cached_file := Some (lines [''7'', ''7'']),
          trace := [Print (''invalid line: '' @ lines [''xyz'']), regenerating_msg, generated_msg]\<rparr>,
        True, [7, 7])
   \<and> cached_file short_world = Some (lines [''1'', ''xyz''])
   \<and> [7, 7] = map (const_draw 7 0 (10 - 1)) [0..<unat (2 :: ulong)]
   \<and> fst (read_loop 10 2 (lines [''1'', ''xyz'']) ([], 0, [])) = [1]"
proof -
  have r: "readIndices short_world (const_draw 7) [] 10 2
     = (short_world\<lparr>cached_file := Some (lines [''7'', ''7'']),
          trace := [Print (''invalid line: '' @ lines [''xyz'']), regenerating_msg, generated_msg]\<rparr>,
        True, [7, 7])"
    by code_simp
  have c: "cached_file short_world = Some (lines [''1'', ''xyz''])" "trace short_world = []"
    by (simp_all add: short_world_def world0_def)
  have l: "fst (read_loop 10 2 (lines [''1'', ''xyz'']) ([], 0, [])) = [1]" by code_simp
  have "[7, 7] \<noteq> [1 :: ulong]" by simp
  moreover have "cached_file short_world = None \<longrightarrow> ([] :: ulong list) = []" by simp
  ultimately have "[7, 7] = map (const_draw 7 0 (10 - 1)) [0..<unat (2 :: ulong)]"
    using readIndices_no_mixture [OF r] c l by auto
  with r c l show ?thesis by simp
qed

end
